theory Spec2Isabelle
  imports Main "HOL-Library.Word"
begin

section \<open>Abfuhrkalender: waste-collection calendar on an LED strip\<close>

text \<open>
  A shallow embedding of \<^verbatim>\<open>Abfuhrkalender.ino\<close>. The sketch fetches an .ics
  calendar over HTTPS, extracts dated collection events from it (\<^verbatim>\<open>getIcs\<close>,
  \<^verbatim>\<open>parseIcsLine\<close>) and once per tick computes the colours of three NeoPixels
  from the events of today and tomorrow (\<^verbatim>\<open>updateLeds\<close>).

  The global variables and the function-local statics of the sketch are the fields of
  one record that every operation takes and returns. The network, the clock and the
  LED driver are libraries outside the sketch: a call of \<^verbatim>\<open>getIcs\<close> takes what
  the HTTP client delivered, a call of \<^verbatim>\<open>updateLeds\<close> takes the dates read
  from the clock, and the pixel buffer with what \<^verbatim>\<open>show()\<close> last sent to the
  strip are two lists of colours. Output on \<^verbatim>\<open>Serial\<close>, the delays and the WiFi
  power state are not modelled.

  A write or read outside a fixed-size array is undefined behaviour in C++; in the
  model it is the result \<open>Inl OutOfBounds\<close>.
\<close>

subsection \<open>Constants and data\<close>

type_synonym u8 = "8 word"

datatype fault = OutOfBounds

datatype TrashType = RESIDUAL | BIO | PLASTIC | PAPER | CHRISTMAS_TREE | COUNT

text \<open>The integer value of an enumerator, \<^verbatim>\<open>static_cast<int>(type)\<close>.\<close>

fun trashIndex :: "TrashType \<Rightarrow> nat" where
  "trashIndex RESIDUAL = 0"
| "trashIndex BIO = 1"
| "trashIndex PLASTIC = 2"
| "trashIndex PAPER = 3"
| "trashIndex CHRISTMAS_TREE = 4"
| "trashIndex COUNT = 5"

definition numOfNeoPixels :: nat where
  "numOfNeoPixels = 3"

definition TrashTypeRed :: "u8 list" where
  "TrashTypeRed = [150, 150, 200, 1, 0]"

definition TrashTypeGreen :: "u8 list" where
  "TrashTypeGreen = [150, 20, 200, 1, 255]"

definition TrashTypeBlue :: "u8 list" where
  "TrashTypeBlue = [140, 0, 0, 255, 0]"

definition eventTrigger :: string where
  "eventTrigger = ''DTSTART;VALUE=DATE:''"

definition eventTypeTrigger :: string where
  "eventTypeTrigger = ''SUMMARY:''"

text \<open>
  \<^verbatim>\<open>TrashTypeStrings\<close>, indexed by the enumerators below \<^verbatim>\<open>COUNT\<close>; the
  parser reads it at the indices 0 to 4 only.
\<close>

fun TrashTypeStrings :: "TrashType \<Rightarrow> string" where
  "TrashTypeStrings RESIDUAL = ''Restabfall''"
| "TrashTypeStrings BIO = ''Bioabfall''"
| "TrashTypeStrings PLASTIC = ''Wertstoff''"
| "TrashTypeStrings PAPER = ''Papiertonne''"
| "TrashTypeStrings CHRISTMAS_TREE = ''Tannenbaum''"
| "TrashTypeStrings COUNT = []"

record Event =
  type :: TrashType
  year :: u8
  month :: u8
  day :: u8

definition maxNumberOfEvents :: nat where
  "maxNumberOfEvents = 100"

datatype TodaysEventDay = TODAY | TOMORROW

record TodaysEvent =
  todaysType :: TrashType
  todaysDay :: TodaysEventDay

text \<open>The fields of \<^verbatim>\<open>struct tm\<close> that the sketch compares.\<close>

record tm =
  tm_year :: int
  tm_mon :: int
  tm_mday :: int

type_synonym colour = "u8 \<times> u8 \<times> u8"

text \<open>
  The globals \<^verbatim>\<open>events\<close>, \<^verbatim>\<open>numberOfEvents\<close>, \<^verbatim>\<open>todaysEvents\<close>,
  \<^verbatim>\<open>numberOfTodaysEvents\<close>; the static \<^verbatim>\<open>trigger\<close> of \<^verbatim>\<open>parseIcsLine\<close>;
  the statics \<^verbatim>\<open>lastMonth\<close>, \<^verbatim>\<open>lastDay\<close>, \<^verbatim>\<open>firstRun\<close> of
  \<^verbatim>\<open>updateLeds\<close> with \<open>staticsInit\<close> telling whether their initialisers have
  run; the pixel buffer of the strip and the colours last sent by \<^verbatim>\<open>show()\<close>.
\<close>

record state =
  events :: "Event list"
  numberOfEvents :: nat
  todaysEvents :: "TodaysEvent list"
  numberOfTodaysEvents :: nat
  trigger :: bool
  staticsInit :: bool
  lastMonth :: int
  lastDay :: int
  firstRun :: bool
  pixels :: "colour list"
  shown :: "colour list"

subsection \<open>Library functions on strings\<close>

definition isspace :: "char \<Rightarrow> bool" where
  "isspace c = (c \<in> set [CHR '' '', CHR 0x09, CHR 0x0A, CHR 0x0B, CHR 0x0C, CHR 0x0D])"

definition isdigit :: "char \<Rightarrow> bool" where
  "isdigit c = (c \<in> set ''0123456789'')"

text \<open>\<^verbatim>\<open>strstr(hay, needle) != NULL\<close>: the needle occurs in the haystack.\<close>

fun strstr :: "string \<Rightarrow> string \<Rightarrow> bool" where
  "strstr [] needle = (needle = [])"
| "strstr (c # cs) needle = (take (length needle) (c # cs) = needle \<or> strstr cs needle)"

text \<open>
  \<^verbatim>\<open>String::substring(left, right)\<close> of the Arduino core: the bounds are swapped
  when they are out of order, a start at or after the end gives the empty string, and
  the end is cut to the length.
\<close>

definition substring :: "string \<Rightarrow> nat \<Rightarrow> nat \<Rightarrow> string" where
  "substring s left right =
     (let l = (if right < left then right else left);
          r = (if right < left then left else right)
      in if length s \<le> l then [] else take (min r (length s) - l) (drop l s))"

text \<open>\<^verbatim>\<open>String::trim()\<close>: white space is removed at both ends.\<close>

definition trim :: "string \<Rightarrow> string" where
  "trim s = rev (dropWhile isspace (rev (dropWhile isspace s)))"

definition digitValue :: "char \<Rightarrow> int" where
  "digitValue c = int (of_char c) - 48"

fun atoiDigits :: "int \<Rightarrow> string \<Rightarrow> int" where
  "atoiDigits acc [] = acc"
| "atoiDigits acc (c # cs) = (if isdigit c then atoiDigits (acc * 10 + digitValue c) cs else acc)"

text \<open>
  \<^verbatim>\<open>atoi\<close>: leading white space, an optional sign, then the longest run of
  digits; 0 when there is none. The sketch calls it on at most four characters, so the
  overflow of \<^verbatim>\<open>int\<close> does not arise.
\<close>

definition atoi :: "string \<Rightarrow> int" where
  "atoi s =
     (case dropWhile isspace s of
        [] \<Rightarrow> 0
      | c # cs \<Rightarrow>
          if c = CHR ''-'' then - atoiDigits 0 cs
          else if c = CHR ''+'' then atoiDigits 0 cs
          else atoiDigits 0 (c # cs))"

subsection \<open>The event extractor: \<^verbatim>\<open>parseIcsLine\<close>\<close>

text \<open>Assignment to a field of \<^verbatim>\<open>events[i]\<close>.\<close>

definition writeEvent :: "nat \<Rightarrow> (Event \<Rightarrow> Event) \<Rightarrow> state \<Rightarrow> fault + state" where
  "writeEvent i f s =
     (if i < length (events s) then Inr (s\<lparr>events := (events s)[i := f (events s ! i)]\<rparr>)
      else Inl OutOfBounds)"

text \<open>
  The search loop over the category names: each round first stores \<^verbatim>\<open>COUNT\<close>,
  then the category whose name occurs in the line, and stops there. The value is what
  the field holds after the loop.
\<close>

fun searchType :: "string \<Rightarrow> TrashType list \<Rightarrow> TrashType \<Rightarrow> TrashType" where
  "searchType line [] t = t"
| "searchType line (i # rest) t =
     (if strstr line (TrashTypeStrings i) then i else searchType line rest COUNT)"

definition allTrashTypes :: "TrashType list" where
  "allTrashTypes = [RESIDUAL, BIO, PLASTIC, PAPER, CHRISTMAS_TREE]"

text \<open>
  The year is stored as \<^verbatim>\<open>(uint8_t)atoi(year) - 2000\<close> in a \<^verbatim>\<open>uint8_t\<close>:
  the cast applies to the result of \<^verbatim>\<open>atoi\<close>, the subtraction is on \<^verbatim>\<open>int\<close>
  and the assignment cuts to eight bits again.
\<close>

definition parseIcsLine :: "string \<Rightarrow> state \<Rightarrow> fault + state" where
  "parseIcsLine line s =
     (if maxNumberOfEvents \<le> numberOfEvents s then Inr s
      else if strstr line eventTrigger then
        (let n = length eventTrigger;
             yearS = substring line n (n + 4);
             monthS = substring line (n + 4) (n + 6);
             dayS = substring line (n + 6) (n + 8);
             y = (word_of_int (uint (word_of_int (atoi yearS) :: u8) - 2000) :: u8);
             m = (word_of_int (atoi monthS) :: u8);
             d = (word_of_int (atoi dayS) :: u8)
         in writeEvent (numberOfEvents s) (\<lambda>e. e\<lparr>year := y, month := m, day := d\<rparr>)
              (s\<lparr>trigger := True\<rparr>))
      else if trigger s \<and> strstr line eventTypeTrigger then
        (case writeEvent (numberOfEvents s)
                (\<lambda>e. e\<lparr>type := searchType line allTrashTypes (type e)\<rparr>)
                (s\<lparr>trigger := False\<rparr>) of
           Inl err \<Rightarrow> Inl err
         | Inr s' \<Rightarrow>
             if trashIndex (type (events s' ! numberOfEvents s')) < trashIndex COUNT
             then Inr (s'\<lparr>numberOfEvents := numberOfEvents s' + 1\<rparr>)
             else Inr s')
      else Inr s)"

subsection \<open>The line reassembler and the fetch: \<^verbatim>\<open>getIcs\<close>\<close>

text \<open>The variables of the read loop that live across its rounds.\<close>

record reader =
  oldLine :: string
  onlyDigitsInLine :: bool
  zeroLines :: nat

text \<open>
  One round of the read loop on a raw line of positive length, from \<^verbatim>\<open>line.trim()\<close>
  to the end of the body. The second component is the argument of the call
  \<^verbatim>\<open>parseIcsLine(oldLine)\<close> when the round makes it, \<open>None\<close> when it does not.
  \<^verbatim>\<open>std::all_of\<close> holds of the empty line.
\<close>

definition reassemble :: "string \<Rightarrow> reader \<Rightarrow> reader \<times> string option" where
  "reassemble raw rd =
     (let line = trim raw;
          old = (if onlyDigitsInLine rd then oldLine rd @ line else oldLine rd);
          skipOldLine = onlyDigitsInLine rd;
          digits = list_all isdigit line
      in if \<not> digits
         then (rd\<lparr>oldLine := (if skipOldLine then [] else line), onlyDigitsInLine := digits\<rparr>,
               if old \<noteq> [] then Some old else None)
         else (rd\<lparr>oldLine := old, onlyDigitsInLine := digits\<rparr>, None))"

text \<open>
  The read loop over the strings that \<^verbatim>\<open>readStringUntil('\n')\<close> returns. The list
  holds what the stream delivers; once it is exhausted every further read times out
  and returns the empty string, so that the loop leaves through the second zero-length
  line without touching the events again.
\<close>

fun readLines :: "string list \<Rightarrow> reader \<Rightarrow> state \<Rightarrow> fault + state" where
  "readLines [] rd s = Inr s"
| "readLines (raw # rest) rd s =
     (if length raw = 0 then
        (if 2 \<le> zeroLines rd + 1 then Inr s
         else readLines rest (rd\<lparr>zeroLines := zeroLines rd + 1\<rparr>) s)
      else
        (case reassemble raw (rd\<lparr>zeroLines := 0\<rparr>) of
           (rd', None) \<Rightarrow> readLines rest rd' s
         | (rd', Some logical) \<Rightarrow>
             (case parseIcsLine logical s of
                Inl err \<Rightarrow> Inl err
              | Inr s' \<Rightarrow> readLines rest rd' s')))"

text \<open>
  What the HTTP client did in one call of \<^verbatim>\<open>getIcs\<close>: \<^verbatim>\<open>https.begin\<close>
  failed, or \<^verbatim>\<open>https.GET()\<close> returned a code and the stream then delivered the
  given raw lines.
\<close>

datatype transport = UnableToConnect | Response int "string list"

definition HTTP_CODE_OK :: int where
  "HTTP_CODE_OK = 200"

definition initialReader :: reader where
  "initialReader = \<lparr>oldLine = [], onlyDigitsInLine = False, zeroLines = 0\<rparr>"

definition getIcs :: "transport \<Rightarrow> state \<Rightarrow> fault + (bool \<times> state)" where
  "getIcs t s =
     (case t of
        UnableToConnect \<Rightarrow> Inr (False, s)
      | Response httpCode body \<Rightarrow>
          if httpCode \<le> 0 then Inr (False, s)
          else if httpCode \<noteq> HTTP_CODE_OK then Inr (False, s)
          else
            (case readLines body initialReader (s\<lparr>numberOfEvents := 0\<rparr>) of
               Inl err \<Rightarrow> Inl err
             | Inr s' \<Rightarrow>
                 if numberOfEvents s' = 0 then Inr (False, s') else Inr (True, s')))"

subsection \<open>The LED strip\<close>

text \<open>
  \<^verbatim>\<open>Adafruit_NeoPixel\<close>: \<^verbatim>\<open>setPixelColor\<close> ignores an index outside the strip,
  \<^verbatim>\<open>clear\<close> blanks the buffer, \<^verbatim>\<open>show\<close> sends the buffer to the strip.
\<close>

definition setPixelColor :: "nat \<Rightarrow> colour \<Rightarrow> state \<Rightarrow> state" where
  "setPixelColor n c s = (if n < length (pixels s) then s\<lparr>pixels := (pixels s)[n := c]\<rparr> else s)"

definition clear :: "state \<Rightarrow> state" where
  "clear s = s\<lparr>pixels := replicate (length (pixels s)) (0, 0, 0)\<rparr>"

definition show_pixels :: "state \<Rightarrow> state" where
  "show_pixels s = s\<lparr>shown := pixels s\<rparr>"

subsection \<open>Failure handling: \<^verbatim>\<open>handleFailure\<close>\<close>

text \<open>One round of the blink loop: the toggle flips, every pixel gets the colour, the strip shows it.\<close>

definition blink :: "bool \<times> state \<Rightarrow> bool \<times> state" where
  "blink ts =
     (let toggle = \<not> fst ts;
          c = ((if toggle then 255 else 0, 0, 0) :: colour)
      in (toggle, show_pixels (fold (\<lambda>p. setPixelColor p c) [0..<numOfNeoPixels] (snd ts))))"

definition handleFailure :: "state \<Rightarrow> bool \<times> state" where
  "handleFailure s =
     (if 0 < numberOfEvents s then (True, s)
      else (False, snd ((blink ^^ 600) (True, s))))"

subsection \<open>Fetching until it works: \<^verbatim>\<open>updateIcs\<close>\<close>




subsection \<open>The daily refresh: \<^verbatim>\<open>updateLeds\<close>\<close>

definition isEventOnDate :: "Event \<Rightarrow> tm \<Rightarrow> bool" where
  "isEventOnDate event timeinfo =
     (uint (year event) + 100 = tm_year timeinfo \<and>
      uint (month event) = tm_mon timeinfo + 1 \<and>
      uint (day event) = tm_mday timeinfo)"

text \<open>The locals of \<^verbatim>\<open>updateLeds\<close> that the loop over the events leaves behind.\<close>

record locals =
  r :: u8
  g :: u8
  b :: u8
  nextDay :: bool
  thisDay :: bool

text \<open>A read of a colour table at the integer value of a category.\<close>

definition tableAt :: "u8 list \<Rightarrow> TrashType \<Rightarrow> fault + u8" where
  "tableAt table t =
     (if trashIndex t < length table then Inr (table ! trashIndex t) else Inl OutOfBounds)"

definition colourOf :: "TrashType \<Rightarrow> fault + colour" where
  "colourOf t =
     (case tableAt TrashTypeRed t of
        Inl err \<Rightarrow> Inl err
      | Inr red \<Rightarrow>
          (case tableAt TrashTypeGreen t of
             Inl err \<Rightarrow> Inl err
           | Inr green \<Rightarrow>
               (case tableAt TrashTypeBlue t of
                  Inl err \<Rightarrow> Inl err
                | Inr blue \<Rightarrow> Inr (red, green, blue))))"

text \<open>
  The body of the loop over the stored events, for \<^verbatim>\<open>events[i]\<close>: both dates are
  tested; on a match the entry \<^verbatim>\<open>todaysEvents[numberOfTodaysEvents]\<close> is written
  (the category, then \<^verbatim>\<open>TODAY\<close> if today matched, then \<^verbatim>\<open>TOMORROW\<close> if
  tomorrow matched), the count goes up and the colour of the category is remembered.
\<close>

definition matchEvent :: "tm \<Rightarrow> tm \<Rightarrow> nat \<Rightarrow> locals \<Rightarrow> state \<Rightarrow> fault + (locals \<times> state)" where
  "matchEvent timeinfo timeinfoNextDay i l s =
     (if length (events s) \<le> i then Inl OutOfBounds
      else
        (let e = events s ! i;
             today = isEventOnDate e timeinfo;
             tomorrow = isEventOnDate e timeinfoNextDay;
             l1 = l\<lparr>thisDay := today, nextDay := tomorrow\<rparr>;
             n = numberOfTodaysEvents s
         in if today \<or> tomorrow then
              (if length (todaysEvents s) \<le> n then Inl OutOfBounds
               else
                 (let entry0 = (todaysEvents s ! n)\<lparr>todaysType := type e\<rparr>;
                      entry1 = (if today then entry0\<lparr>todaysDay := TODAY\<rparr> else entry0);
                      entry2 = (if tomorrow then entry1\<lparr>todaysDay := TOMORROW\<rparr> else entry1);
                      s1 = s\<lparr>todaysEvents := (todaysEvents s)[n := entry2],
                              numberOfTodaysEvents := n + 1\<rparr>
                  in case colourOf (type e) of
                       Inl err \<Rightarrow> Inl err
                     | Inr (red, green, blue) \<Rightarrow>
                         Inr (l1\<lparr>r := red, g := green, b := blue\<rparr>, s1)))
            else Inr (l1, s)))"

fun matchEvents :: "tm \<Rightarrow> tm \<Rightarrow> nat list \<Rightarrow> locals \<Rightarrow> state \<Rightarrow> fault + (locals \<times> state)" where
  "matchEvents timeinfo timeinfoNextDay [] l s = Inr (l, s)"
| "matchEvents timeinfo timeinfoNextDay (i # rest) l s =
     (case matchEvent timeinfo timeinfoNextDay i l s of
        Inl err \<Rightarrow> Inl err
      | Inr (l', s') \<Rightarrow> matchEvents timeinfo timeinfoNextDay rest l' s')"

text \<open>
  The loop of the branch for several matches: pixel \<open>p\<close> gets the colour of
  \<^verbatim>\<open>todaysEvents[p - 1]\<close>.
\<close>

fun showSeveral :: "nat list \<Rightarrow> state \<Rightarrow> fault + state" where
  "showSeveral [] s = Inr s"
| "showSeveral (p # rest) s =
     (if length (todaysEvents s) \<le> p - 1 then Inl OutOfBounds
      else
        (case colourOf (todaysType (todaysEvents s ! (p - 1))) of
           Inl err \<Rightarrow> Inl err
         | Inr c \<Rightarrow> showSeveral rest (setPixelColor p c s)))"

text \<open>The three branches on the number of matches that fill the pixel buffer.\<close>

definition display :: "locals \<Rightarrow> state \<Rightarrow> fault + state" where
  "display l s =
     (if numberOfTodaysEvents s = 1 then
        Inr (fold (\<lambda>p. setPixelColor p
                    (if p \<noteq> numOfNeoPixels div 2 \<and> thisDay l then (0, 0, 0) else (r l, g l, b l)))
               [0..<numOfNeoPixels] s)
      else if 1 < numberOfTodaysEvents s then
        showSeveral [1..<numOfNeoPixels] (setPixelColor 0 (0, 0, 0) s)
      else Inr (clear s))"

text \<open>
  What one call of \<^verbatim>\<open>updateLeds\<close> reads from the clock. The pointer
  \<^verbatim>\<open>timeinfo\<close> is read before the second call of \<^verbatim>\<open>localtime\<close> (by the
  static initialisers and the test on \<^verbatim>\<open>lastDay\<close>) and after it (by the loop over
  the events and the month comparison); \<^verbatim>\<open>localtime\<close> hands out one buffer
  for both of its results, so the two reads and \<^verbatim>\<open>*timeinfoNextDay\<close> are three
  values of their own. On the device the later two are the same: both pointers read
  the next day once \<^verbatim>\<open>localtime\<close> has run the second time.
\<close>

record clock =
  timeinfoFirst :: tm
  timeinfo :: tm
  timeinfoNextDay :: tm

definition initialLocals :: locals where
  "initialLocals = \<lparr>r = 0, g = 0, b = 0, nextDay = False, thisDay = False\<rparr>"

text \<open>
  The statics are initialised by the first call that reaches their declarations.
  No statement of \<^verbatim>\<open>updateLeds\<close> assigns to \<^verbatim>\<open>firstRun\<close>.
  The argument \<open>None\<close> is a call in which \<^verbatim>\<open>getLocalTime\<close> fails.
\<close>

definition initStatics :: "tm \<Rightarrow> state \<Rightarrow> state" where
  "initStatics t s =
     (if staticsInit s then s
      else s\<lparr>staticsInit := True, lastMonth := tm_mon t, lastDay := tm_mday t, firstRun := True\<rparr>)"

definition updateLeds :: "bool \<Rightarrow> clock option \<Rightarrow> state \<Rightarrow> fault + (bool \<times> state)" where
  "updateLeds lastEventUpdateSuccessful now s =
     (case now of
        None \<Rightarrow> Inr (False, s)
      | Some c \<Rightarrow>
          (let s0 = initStatics (timeinfoFirst c) s
           in if \<not> firstRun s0 \<and> lastDay s0 = tm_mday (timeinfoFirst c) then Inr (False, s0)
              else
                (case matchEvents (timeinfo c) (timeinfoNextDay c) [0..<numberOfEvents s0]
                        initialLocals (s0\<lparr>numberOfTodaysEvents := 0\<rparr>) of
                   Inl err \<Rightarrow> Inl err
                 | Inr (l, s1) \<Rightarrow>
                     (case display l s1 of
                        Inl err \<Rightarrow> Inl err
                      | Inr s2 \<Rightarrow>
                          (let s3 = (if \<not> lastEventUpdateSuccessful
                                     then setPixelColor 0 (255, 0, 0) s2 else s2);
                               s4 = show_pixels s3;
                               newMonth = (lastMonth s4 \<noteq> tm_mon (timeinfo c))
                           in Inr (newMonth, s4\<lparr>lastMonth := tm_mon (timeinfo c),
                                                 lastDay := tm_mday (timeinfo c)\<rparr>))))))"

text \<open>The state at power-on: zeroed globals, statics not yet initialised, a dark strip.\<close>

definition initialState :: state where
  "initialState =
     \<lparr>events = replicate maxNumberOfEvents \<lparr>type = RESIDUAL, year = 0, month = 0, day = 0\<rparr>,
      numberOfEvents = 0,
      todaysEvents = replicate (trashIndex COUNT) \<lparr>todaysType = RESIDUAL, todaysDay = TODAY\<rparr>,
      numberOfTodaysEvents = 0,
      trigger = False,
      staticsInit = False,
      lastMonth = 0,
      lastDay = 0,
      firstRun = True,
      pixels = replicate numOfNeoPixels (0, 0, 0),
      shown = replicate numOfNeoPixels (0, 0, 0)\<rparr>"

subsection \<open>Concrete inputs\<close>

text \<open>
  A date line and a category line as the calendar server sends them, the reader after
  a category line, and the states of the scenarios below: a list with one event, and
  two bodies fetched one after the other with the states they leave behind.
\<close>

definition dateLine :: string where
  "dateLine = ''DTSTART;VALUE=DATE:20250101''"

definition summaryLine :: string where
  "summaryLine = ''SUMMARY:Restabfall''"

definition summaryReader :: reader where
  "summaryReader = \<lparr>oldLine = summaryLine, onlyDigitsInLine = False, zeroLines = 0\<rparr>"

definition oneEventState :: state where
  "oneEventState =
     initialState\<lparr>events := (events initialState)[0 := \<lparr>type = PAPER, year = 25, month = 3, day = 14\<rparr>],
                  numberOfEvents := 1\<rparr>"

definition firstFetch :: "string list" where
  "firstFetch = [''DTSTART;VALUE=DATE:20250101'', ''SUMMARY:Restabfall'',
                 ''DTSTART;VALUE=DATE:20250202'', ''END:VCALENDAR'']"

definition secondFetch :: "string list" where
  "secondFetch = [''SUMMARY:Bioabfall'', ''END:VCALENDAR'']"

definition afterFirstFetch :: state where
  "afterFirstFetch =
     initialState\<lparr>events := (events initialState)
                     [0 := \<lparr>type = RESIDUAL, year = 25, month = 1, day = 1\<rparr>,
                      1 := \<lparr>type = RESIDUAL, year = 25, month = 2, day = 2\<rparr>],
                  numberOfEvents := 1, trigger := True\<rparr>"

definition afterSecondFetch :: state where
  "afterSecondFetch =
     afterFirstFetch\<lparr>events := (events afterFirstFetch)
                        [0 := \<lparr>type = BIO, year = 25, month = 1, day = 1\<rparr>],
                     numberOfEvents := 1, trigger := False\<rparr>"

text \<open>
  Vocabulary for the refresh: an event matches when it is on one of the two dates; the
  entry that the loop body writes for a matching event; the calls of
  \<^verbatim>\<open>updateLeds\<close> that get past the test on \<^verbatim>\<open>lastDay\<close>.
\<close>

definition matches :: "tm \<Rightarrow> tm \<Rightarrow> Event \<Rightarrow> bool" where
  "matches ti tn e = (isEventOnDate e ti \<or> isEventOnDate e tn)"

definition entryFor :: "tm \<Rightarrow> Event \<Rightarrow> TodaysEvent" where
  "entryFor tn e =
     \<lparr>todaysType = type e, todaysDay = (if isEventOnDate e tn then TOMORROW else TODAY)\<rparr>"

definition refreshes :: "clock \<Rightarrow> state \<Rightarrow> bool" where
  "refreshes c s =
     (let s0 = initStatics (timeinfoFirst c) s
      in \<not> (\<not> firstRun s0 \<and> lastDay s0 = tm_mday (timeinfoFirst c)))"

definition matchingEvents :: "clock \<Rightarrow> state \<Rightarrow> Event list" where
  "matchingEvents c s =
     filter (matches (timeinfo c) (timeinfoNextDay c)) (take (numberOfEvents s) (events s))"

text \<open>
  Clocks and stored event lists for the refresh scenarios. A tick on the device reads
  the day itself before the second call of \<^verbatim>\<open>localtime\<close> and the next day
  through both pointers after it: the ticks of 31 March and of 1 April 2025. A clock
  whose three reads are all 1 April. A state holding the given events, and the state
  after a refresh that wrote the given entries and colours.
\<close>

definition deviceClock :: "tm \<Rightarrow> tm \<Rightarrow> clock" where
  "deviceClock today tomorrow =
     \<lparr>timeinfoFirst = today, timeinfo = tomorrow, timeinfoNextDay = tomorrow\<rparr>"

definition marchLastTick :: clock where
  "marchLastTick =
     deviceClock \<lparr>tm_year = 125, tm_mon = 2, tm_mday = 31\<rparr> \<lparr>tm_year = 125, tm_mon = 3, tm_mday = 1\<rparr>"

definition aprilFirstTick :: clock where
  "aprilFirstTick =
     deviceClock \<lparr>tm_year = 125, tm_mon = 3, tm_mday = 1\<rparr> \<lparr>tm_year = 125, tm_mon = 3, tm_mday = 2\<rparr>"

definition stoppedClock :: clock where
  "stoppedClock =
     \<lparr>timeinfoFirst = \<lparr>tm_year = 125, tm_mon = 3, tm_mday = 1\<rparr>,
      timeinfo = \<lparr>tm_year = 125, tm_mon = 3, tm_mday = 1\<rparr>,
      timeinfoNextDay = \<lparr>tm_year = 125, tm_mon = 3, tm_mday = 1\<rparr>\<rparr>"

definition storedState :: "Event list \<Rightarrow> state" where
  "storedState es =
     initialState\<lparr>events := es @ drop (length es) (events initialState),
                  numberOfEvents := length es\<rparr>"

definition refreshed :: "state \<Rightarrow> TodaysEvent list \<Rightarrow> colour list \<Rightarrow> state" where
  "refreshed s entries cols =
     s\<lparr>todaysEvents := entries @ drop (length entries) (todaysEvents s),
       numberOfTodaysEvents := length entries,
       staticsInit := True, lastMonth := 3, lastDay := 1, firstRun := True,
       pixels := cols, shown := cols\<rparr>"

definition refreshedOn :: "tm \<Rightarrow> state \<Rightarrow> TodaysEvent list \<Rightarrow> colour list \<Rightarrow> state" where
  "refreshedOn t s entries cols =
     s\<lparr>todaysEvents := entries @ drop (length entries) (todaysEvents s),
       numberOfTodaysEvents := length entries,
       staticsInit := True, lastMonth := tm_mon t, lastDay := tm_mday t, firstRun := True,
       pixels := cols, shown := cols\<rparr>"

definition residualApril1 :: Event where
  "residualApril1 = \<lparr>type = RESIDUAL, year = 25, month = 4, day = 1\<rparr>"

definition residualApril2 :: Event where
  "residualApril2 = \<lparr>type = RESIDUAL, year = 25, month = 4, day = 2\<rparr>"

definition bioApril2 :: Event where
  "bioApril2 = \<lparr>type = BIO, year = 25, month = 4, day = 2\<rparr>"

definition plasticApril2 :: Event where
  "plasticApril2 = \<lparr>type = PLASTIC, year = 25, month = 4, day = 2\<rparr>"

definition paperApril2 :: Event where
  "paperApril2 = \<lparr>type = PAPER, year = 25, month = 4, day = 2\<rparr>"

definition treeApril2 :: Event where
  "treeApril2 = \<lparr>type = CHRISTMAS_TREE, year = 25, month = 4, day = 2\<rparr>"

definition bioJune1 :: Event where
  "bioJune1 = \<lparr>type = BIO, year = 25, month = 6, day = 1\<rparr>"

text \<open>
  Six events on 2 April, the five categories and a second Residual collection; a
  calendar with the one Residual collection of 2 April; a calendar without events.
\<close>

definition sixOnOneDay :: "Event list" where
  "sixOnOneDay = [residualApril2, bioApril2, plasticApril2, paperApril2, treeApril2, residualApril2]"

definition aprilSecondBody :: "string list" where
  "aprilSecondBody =
     [''BEGIN:VCALENDAR'', ''DTSTART;VALUE=DATE:20250402'', ''SUMMARY:Restabfall'', ''END:VCALENDAR'']"


text \<open>
  The states the sketch can be in: power-on, and from there any sequence of fetches, of
  ticks of \<^verbatim>\<open>updateLeds\<close> and of calls of \<^verbatim>\<open>handleFailure\<close>, whatever the
  network and the clock deliver.
\<close>

inductive reachable :: "state \<Rightarrow> bool" where
  power_on: "reachable initialState"
| fetch: "reachable s \<Longrightarrow> getIcs t s = Inr (ok, s') \<Longrightarrow> reachable s'"
| tick: "reachable s \<Longrightarrow> updateLeds ok now s = Inr (newMonth, s') \<Longrightarrow> reachable s'"
| failure: "reachable s \<Longrightarrow> handleFailure s = (ok, s') \<Longrightarrow> reachable s'"

text \<open>Every stored event has a category below \<^verbatim>\<open>COUNT\<close>.\<close>

definition storedValid :: "state \<Rightarrow> bool" where
  "storedValid s = list_all (\<lambda>e. type e \<noteq> COUNT) (take (numberOfEvents s) (events s))"

section \<open>Properties\<close>

subsection \<open>The event extractor keeps within the event list\<close>

lemma parseIcsLine_full:
  "maxNumberOfEvents \<le> numberOfEvents s \<Longrightarrow> parseIcsLine line s = Inr s"
  by (simp add: parseIcsLine_def)

lemma parseIcsLine_total:
  assumes "length (events s) = maxNumberOfEvents"
  shows "\<exists>s'. parseIcsLine line s = Inr s' \<and> length (events s') = maxNumberOfEvents \<and>
              numberOfEvents s \<le> numberOfEvents s' \<and> numberOfEvents s' \<le> numberOfEvents s + 1 \<and>
              (numberOfEvents s \<le> maxNumberOfEvents \<longrightarrow> numberOfEvents s' \<le> maxNumberOfEvents)"
  using assms by (auto simp: parseIcsLine_def writeEvent_def Let_def)

lemma readLines_total:
  assumes "length (events s) = maxNumberOfEvents"
  shows "\<exists>s'. readLines body rd s = Inr s' \<and> length (events s') = maxNumberOfEvents \<and>
              (numberOfEvents s \<le> maxNumberOfEvents \<longrightarrow> numberOfEvents s' \<le> maxNumberOfEvents)"
  using assms
proof (induction body arbitrary: rd s)
  case Nil
  then show ?case by simp
next
  case (Cons raw rest)
  show ?case
  proof (cases "length raw = 0")
    case True
    with Cons show ?thesis by simp
  next
    case False
    obtain rd' em where re: "reassemble raw (rd\<lparr>zeroLines := 0\<rparr>) = (rd', em)"
      by (cases "reassemble raw (rd\<lparr>zeroLines := 0\<rparr>)")
    show ?thesis
    proof (cases em)
      case None
      with False re Cons show ?thesis by simp
    next
      case (Some logical)
      from parseIcsLine_total [OF Cons.prems, of logical]
      obtain s1 where p: "parseIcsLine logical s = Inr s1"
        and l: "length (events s1) = maxNumberOfEvents"
        and b: "numberOfEvents s \<le> maxNumberOfEvents \<longrightarrow> numberOfEvents s1 \<le> maxNumberOfEvents"
        by blast
      from Cons.IH [OF l, of rd'] b False re Some p show ?thesis by auto
    qed
  qed
qed

subsection \<open>A stream of date and category pairs\<close>

lemma reassemble_plain:
  assumes "\<not> onlyDigitsInLine rd" "\<not> list_all isdigit (trim raw)"
  shows "reassemble raw rd =
           (rd\<lparr>oldLine := trim raw, onlyDigitsInLine := False\<rparr>,
            if oldLine rd \<noteq> [] then Some (oldLine rd) else None)"
  using assms by (simp add: reassemble_def Let_def)

lemma trim_dateLine: "trim dateLine = dateLine"
  by (simp add: trim_def dateLine_def isspace_def)

lemma trim_summaryLine: "trim summaryLine = summaryLine"
  by (simp add: trim_def summaryLine_def isspace_def)

lemma digits_dateLine: "\<not> list_all isdigit dateLine"
  by (simp add: dateLine_def isdigit_def)

lemma digits_summaryLine: "\<not> list_all isdigit summaryLine"
  by (simp add: summaryLine_def isdigit_def)

lemma strstr_dateLine: "strstr dateLine eventTrigger"
  by (simp add: dateLine_def eventTrigger_def)

lemma strstr_summaryLine:
  "\<not> strstr summaryLine eventTrigger" "strstr summaryLine eventTypeTrigger"
  "searchType summaryLine allTrashTypes t = RESIDUAL"
  by (simp_all add: summaryLine_def eventTrigger_def eventTypeTrigger_def allTrashTypes_def)

lemma parse_dateLine:
  assumes "numberOfEvents s < maxNumberOfEvents" "length (events s) = maxNumberOfEvents"
  shows "\<exists>s'. parseIcsLine dateLine s = Inr s' \<and> trigger s' \<and>
              numberOfEvents s' = numberOfEvents s \<and> length (events s') = maxNumberOfEvents"
  using assms by (simp add: parseIcsLine_def strstr_dateLine writeEvent_def Let_def)

lemma parse_summaryLine:
  assumes "numberOfEvents s < maxNumberOfEvents" "length (events s) = maxNumberOfEvents" "trigger s"
  shows "\<exists>s'. parseIcsLine summaryLine s = Inr s' \<and> \<not> trigger s' \<and>
              numberOfEvents s' = numberOfEvents s + 1 \<and> length (events s') = maxNumberOfEvents"
  using assms by (simp add: parseIcsLine_def strstr_summaryLine writeEvent_def Let_def)

lemma length_lines: "length dateLine \<noteq> 0" "length summaryLine \<noteq> 0" "summaryLine \<noteq> []" "dateLine \<noteq> []"
  by (simp_all add: dateLine_def summaryLine_def)

lemma first_pair:
  assumes "numberOfEvents s < maxNumberOfEvents" "length (events s) = maxNumberOfEvents"
  shows "\<exists>s'. readLines (dateLine # summaryLine # rest) initialReader s = readLines rest summaryReader s' \<and>
              trigger s' \<and> numberOfEvents s' = numberOfEvents s \<and>
              length (events s') = maxNumberOfEvents"
proof -
  from parse_dateLine [OF assms] obtain s1 where
    "parseIcsLine dateLine s = Inr s1" "trigger s1" "numberOfEvents s1 = numberOfEvents s"
    "length (events s1) = maxNumberOfEvents"
    by blast
  then show ?thesis
    by (intro exI [of _ s1])
      (simp add: initialReader_def summaryReader_def reassemble_plain length_lines
        trim_dateLine trim_summaryLine digits_dateLine digits_summaryLine)
qed

lemma next_pair:
  assumes "numberOfEvents s < maxNumberOfEvents" "length (events s) = maxNumberOfEvents" "trigger s"
  shows "\<exists>s'. readLines (dateLine # summaryLine # rest) summaryReader s = readLines rest summaryReader s' \<and>
              (numberOfEvents s' < maxNumberOfEvents \<longrightarrow> trigger s') \<and>
              numberOfEvents s' = numberOfEvents s + 1 \<and>
              length (events s') = maxNumberOfEvents"
proof -
  from parse_summaryLine [OF assms] obtain s1 where s1:
    "parseIcsLine summaryLine s = Inr s1" "numberOfEvents s1 = numberOfEvents s + 1"
    "length (events s1) = maxNumberOfEvents"
    by blast
  have "\<exists>s2. parseIcsLine dateLine s1 = Inr s2 \<and> (numberOfEvents s2 < maxNumberOfEvents \<longrightarrow> trigger s2) \<and>
          numberOfEvents s2 = numberOfEvents s1 \<and> length (events s2) = maxNumberOfEvents"
  proof (cases "numberOfEvents s1 < maxNumberOfEvents")
    case True
    from parse_dateLine [OF True s1(3)] show ?thesis by blast
  next
    case False
    then show ?thesis using s1(3) by (simp add: parseIcsLine_full)
  qed
  then obtain s2 where "parseIcsLine dateLine s1 = Inr s2"
    "numberOfEvents s2 < maxNumberOfEvents \<longrightarrow> trigger s2"
    "numberOfEvents s2 = numberOfEvents s1" "length (events s2) = maxNumberOfEvents"
    by blast
  with s1 show ?thesis
    by (intro exI [of _ s2])
      (simp add: summaryReader_def reassemble_plain length_lines
        trim_dateLine trim_summaryLine digits_dateLine digits_summaryLine)
qed

lemma many_pairs:
  assumes "numberOfEvents s + k \<le> maxNumberOfEvents" "length (events s) = maxNumberOfEvents"
    "numberOfEvents s < maxNumberOfEvents \<longrightarrow> trigger s"
  shows "\<exists>s'. readLines (concat (replicate k [dateLine, summaryLine]) @ rest) summaryReader s =
                 readLines rest summaryReader s' \<and>
              numberOfEvents s' = numberOfEvents s + k \<and>
              length (events s') = maxNumberOfEvents"
  using assms
proof (induction k arbitrary: s)
  case 0
  then show ?case by (intro exI [of _ s]) simp
next
  case (Suc k)
  then have lt: "numberOfEvents s < maxNumberOfEvents" and tr: "trigger s"
    by simp_all
  from next_pair [OF lt Suc.prems(2) tr, of "concat (replicate k [dateLine, summaryLine]) @ rest"]
  obtain s1 where s1:
    "readLines (dateLine # summaryLine # concat (replicate k [dateLine, summaryLine]) @ rest) summaryReader s =
       readLines (concat (replicate k [dateLine, summaryLine]) @ rest) summaryReader s1"
    "numberOfEvents s1 < maxNumberOfEvents \<longrightarrow> trigger s1"
    "numberOfEvents s1 = numberOfEvents s + 1" "length (events s1) = maxNumberOfEvents"
    by blast
  from Suc.prems(1) s1(3) have "numberOfEvents s1 + k \<le> maxNumberOfEvents"
    by simp
  from Suc.IH [OF this s1(4) s1(2)] s1(1,3) show ?case
    by auto
qed

lemma readLines_full:
  "maxNumberOfEvents \<le> numberOfEvents s \<Longrightarrow> readLines body rd s = Inr s"
proof (induction body arbitrary: rd)
  case Nil
  then show ?case by simp
next
  case (Cons raw rest)
  then show ?case
    by (simp add: parseIcsLine_full split: prod.splits option.splits)
qed

lemma pairs_fill_the_list:
  assumes "length (events s) = maxNumberOfEvents" "numberOfEvents s = 0"
  shows "\<exists>s'. readLines (concat (replicate (Suc (maxNumberOfEvents + m)) [dateLine, summaryLine]))
                 initialReader s = Inr s' \<and>
              numberOfEvents s' = maxNumberOfEvents \<and> length (events s') = maxNumberOfEvents"
proof -
  let ?pair = "[dateLine, summaryLine]"
  let ?tail = "concat (replicate maxNumberOfEvents ?pair) @ concat (replicate m ?pair)"
  have split: "concat (replicate (Suc (maxNumberOfEvents + m)) ?pair) = dateLine # summaryLine # ?tail"
    by (simp add: replicate_add)
  from assms have "numberOfEvents s < maxNumberOfEvents"
    by (simp add: maxNumberOfEvents_def)
  from first_pair [OF this assms(1), of ?tail] obtain s1 where s1:
    "readLines (dateLine # summaryLine # ?tail) initialReader s = readLines ?tail summaryReader s1"
    "trigger s1" "numberOfEvents s1 = numberOfEvents s" "length (events s1) = maxNumberOfEvents"
    by blast
  from s1(3) assms(2) have "numberOfEvents s1 + maxNumberOfEvents \<le> maxNumberOfEvents"
    by simp
  from many_pairs [OF this s1(4), of "concat (replicate m ?pair)"] s1(2) obtain s2 where s2:
    "readLines ?tail summaryReader s1 = readLines (concat (replicate m ?pair)) summaryReader s2"
    "numberOfEvents s2 = numberOfEvents s1 + maxNumberOfEvents" "length (events s2) = maxNumberOfEvents"
    by blast
  from s2(2) have "maxNumberOfEvents \<le> numberOfEvents s2"
    by simp
  from readLines_full [OF this] split s1 s2 assms(2) show ?thesis
    by simp
qed

subsection \<open>Lines of digits in the read loop\<close>

lemma trim_Nil: "trim [] = []"
  by (simp add: trim_def)

text \<open>
  C5, as stated, fails: after the line \<open>SUMMARY:Restabfall\<close> the trimmed line
  \<open>123\<close> is non-empty and all digits, and the round leaves \<^verbatim>\<open>oldLine\<close> as it
  was. The text of the digit line is not appended.
\<close>

theorem digit_line_not_appended:
  "trim ''123'' = ''123'' \<and> list_all isdigit ''123'' \<and>
   reassemble ''123'' \<lparr>oldLine = ''SUMMARY:Restabfall'', onlyDigitsInLine = False, zeroLines = 0\<rparr> =
     (\<lparr>oldLine = ''SUMMARY:Restabfall'', onlyDigitsInLine = True, zeroLines = 0\<rparr>, None) \<and>
   ''SUMMARY:Restabfall'' \<noteq> ''SUMMARY:Restabfall'' @ ''123''"
  by (simp add: reassemble_def trim_def isspace_def isdigit_def)

text \<open>
  C5, amended: a raw line whose trimmed text is non-empty and all digits makes no call of
  \<^verbatim>\<open>parseIcsLine\<close>, in the round and in the loop, and sets the digit flag. Its own
  text is appended to \<^verbatim>\<open>oldLine\<close> only when the line before it was all digits
  too; otherwise \<^verbatim>\<open>oldLine\<close> stays as it is. It is the following line whose text is
  appended: when that line is not all digits, the joined text is passed to
  \<^verbatim>\<open>parseIcsLine\<close> and the buffer is emptied.
\<close>

theorem digit_line_continuation:
  assumes "trim raw \<noteq> []" and "list_all isdigit (trim raw)"
  shows "reassemble raw rd =
           (rd\<lparr>oldLine := (if onlyDigitsInLine rd then oldLine rd @ trim raw else oldLine rd),
                onlyDigitsInLine := True\<rparr>, None) \<and>
         readLines (raw # rest) rd s =
           readLines rest
             (rd\<lparr>zeroLines := 0,
                  oldLine := (if onlyDigitsInLine rd then oldLine rd @ trim raw else oldLine rd),
                  onlyDigitsInLine := True\<rparr>) s \<and>
         (\<not> list_all isdigit (trim following) \<longrightarrow>
            reassemble following (fst (reassemble raw rd)) =
              ((fst (reassemble raw rd))\<lparr>oldLine := [], onlyDigitsInLine := False\<rparr>,
               Some (oldLine (fst (reassemble raw rd)) @ trim following)))"
proof -
  from assms(1) have "raw \<noteq> []"
    using trim_Nil by blast
  with assms show ?thesis
    by (auto simp: reassemble_def Let_def)
qed

text \<open>
  The line \<open>DTSTART;VALUE=DAT\<close>, the digit line \<open>123\<close> and the rest
  \<open>E:20250101\<close>: the digit line is dropped and the two halves are joined.
\<close>

theorem digit_line_continuation_witness:
  "trim ''123'' \<noteq> [] \<and> list_all isdigit (trim ''123'') \<and>
   \<not> list_all isdigit (trim ''E:20250101'') \<and>
   reassemble ''123'' \<lparr>oldLine = ''DTSTART;VALUE=DAT'', onlyDigitsInLine = False, zeroLines = 0\<rparr> =
     (\<lparr>oldLine = ''DTSTART;VALUE=DAT'', onlyDigitsInLine = True, zeroLines = 0\<rparr>, None) \<and>
   reassemble ''E:20250101'' \<lparr>oldLine = ''DTSTART;VALUE=DAT'', onlyDigitsInLine = True, zeroLines = 0\<rparr> =
     (\<lparr>oldLine = [], onlyDigitsInLine = False, zeroLines = 0\<rparr>, Some ''DTSTART;VALUE=DATE:20250101'')"
proof -
  have t: "trim ''123'' = ''123''" "trim ''E:20250101'' = ''E:20250101''"
    by (simp_all add: trim_def isspace_def)
  have h1: "trim ''123'' \<noteq> []" and h2: "list_all isdigit (trim ''123'')"
    and h3: "\<not> list_all isdigit (trim ''E:20250101'')"
    by (simp_all add: t isdigit_def)
  from digit_line_continuation [OF h1 h2,
      of "\<lparr>oldLine = ''DTSTART;VALUE=DAT'', onlyDigitsInLine = False, zeroLines = 0\<rparr>" "[]"
         initialState "''E:20250101''"] h1 h2 h3
  show ?thesis
    by (auto simp: t isdigit_def)
qed

subsection \<open>The verdict of a fetch\<close>




text \<open>
  C10: when \<^verbatim>\<open>getIcs\<close> fails before a successful GET (no connection, a result
  that is not positive, a code other than OK) the whole state, with the event list and
  its count, is what it was. After a successful GET the count is set to zero before
  the body is read: with an empty body that is the only change. With events stored,
  \<^verbatim>\<open>handleFailure\<close> returns true at once and leaves the state alone.
\<close>

theorem failed_fetch_keeps_events:
  "getIcs UnableToConnect s = Inr (False, s) \<and>
   (httpCode \<le> 0 \<longrightarrow> getIcs (Response httpCode body) s = Inr (False, s)) \<and>
   (httpCode \<noteq> HTTP_CODE_OK \<longrightarrow> getIcs (Response httpCode body) s = Inr (False, s)) \<and>
   getIcs (Response HTTP_CODE_OK []) s = Inr (False, s\<lparr>numberOfEvents := 0\<rparr>) \<and>
   (0 < numberOfEvents s \<longrightarrow> handleFailure s = (True, s))"
  by (simp add: getIcs_def HTTP_CODE_OK_def handleFailure_def)

text \<open>One stored event and the result -1 of the GET.\<close>

theorem failed_fetch_keeps_events_witness:
  "- 1 \<le> (0::int) \<and> - 1 \<noteq> HTTP_CODE_OK \<and> 0 < numberOfEvents oneEventState \<and>
   getIcs (Response (- 1) [dateLine, summaryLine]) oneEventState = Inr (False, oneEventState) \<and>
   handleFailure oneEventState = (True, oneEventState)"
proof -
  have h: "0 < numberOfEvents oneEventState" "- 1 \<noteq> HTTP_CODE_OK"
    by (simp_all add: oneEventState_def HTTP_CODE_OK_def)
  with failed_fetch_keeps_events [of oneEventState "- 1" "[dateLine, summaryLine]"]
  show ?thesis
    by simp
qed

subsection \<open>The flag \<^verbatim>\<open>trigger\<close> across fetches\<close>

lemma atoi_examples:
  "atoi ''2025'' = 2025" "atoi ''01'' = 1" "atoi ''02'' = 2"
  by (simp_all add: atoi_def isspace_def isdigit_def digitValue_def)

lemma first_fetch: "getIcs (Response HTTP_CODE_OK firstFetch) initialState = Inr (True, afterFirstFetch)"
  by (simp add: getIcs_def HTTP_CODE_OK_def firstFetch_def initialReader_def reassemble_def
      trim_def isspace_def isdigit_def parseIcsLine_def writeEvent_def initialState_def
      maxNumberOfEvents_def eventTrigger_def eventTypeTrigger_def allTrashTypes_def
      substring_def atoi_examples afterFirstFetch_def Let_def)

lemma second_fetch:
  "getIcs (Response HTTP_CODE_OK secondFetch) afterFirstFetch = Inr (True, afterSecondFetch)"
  by (simp add: getIcs_def HTTP_CODE_OK_def secondFetch_def initialReader_def reassemble_def
      trim_def isspace_def isdigit_def parseIcsLine_def writeEvent_def initialState_def
      maxNumberOfEvents_def eventTrigger_def eventTypeTrigger_def allTrashTypes_def
      afterFirstFetch_def afterSecondFetch_def Let_def)

lemma second_fetch_reset:
  "getIcs (Response HTTP_CODE_OK secondFetch) (afterFirstFetch\<lparr>trigger := False\<rparr>) =
     Inr (False, afterFirstFetch\<lparr>trigger := False, numberOfEvents := 0\<rparr>)"
  by (simp add: getIcs_def HTTP_CODE_OK_def secondFetch_def initialReader_def reassemble_def
      trim_def isspace_def isdigit_def parseIcsLine_def writeEvent_def initialState_def
      maxNumberOfEvents_def eventTrigger_def eventTypeTrigger_def allTrashTypes_def
      afterFirstFetch_def Let_def)

text \<open>
  C9: \<^verbatim>\<open>getIcs\<close> does not reset \<^verbatim>\<open>trigger\<close> (a fetch of an empty body
  changes the count only). The first fetch ends with a date line that no category line
  follows and leaves the flag set. The second fetch starts with a category line and has
  no date line; it stores an event of that category with the date that slot 0 holds
  from the first fetch. From the same state with the flag cleared, the second fetch
  stores nothing.
\<close>

theorem trigger_survives_fetch:
  "getIcs (Response HTTP_CODE_OK firstFetch) initialState = Inr (True, afterFirstFetch) \<and>
   trigger afterFirstFetch \<and>
   getIcs (Response HTTP_CODE_OK secondFetch) afterFirstFetch = Inr (True, afterSecondFetch) \<and>
   numberOfEvents afterSecondFetch = 1 \<and>
   events afterSecondFetch ! 0 = \<lparr>type = BIO, year = 25, month = 1, day = 1\<rparr> \<and>
   getIcs (Response HTTP_CODE_OK secondFetch) (afterFirstFetch\<lparr>trigger := False\<rparr>) =
     Inr (False, afterFirstFetch\<lparr>trigger := False, numberOfEvents := 0\<rparr>) \<and>
   getIcs (Response HTTP_CODE_OK []) s = Inr (False, s\<lparr>numberOfEvents := 0\<rparr>)"
  by (simp add: first_fetch second_fetch second_fetch_reset)
    (simp add: afterFirstFetch_def afterSecondFetch_def initialState_def maxNumberOfEvents_def
      getIcs_def HTTP_CODE_OK_def)

subsection \<open>The loop over the stored events\<close>

lemma entry_written:
  "x\<lparr>todaysType := t, todaysDay := d\<rparr> = \<lparr>todaysType = t, todaysDay = d\<rparr>"
  by (cases x) simp

lemma colourOf_valid: "t \<noteq> COUNT \<Longrightarrow> \<exists>c. colourOf t = Inr c"
  by (cases t) (simp_all add: colourOf_def tableAt_def TrashTypeRed_def TrashTypeGreen_def TrashTypeBlue_def)

lemma matchEvent_Inr:
  assumes "matchEvent ti tn i l s = Inr (l', s')"
  shows "i < length (events s) \<and> thisDay l' = isEventOnDate (events s ! i) ti \<and>
         (if matches ti tn (events s ! i)
          then numberOfTodaysEvents s < length (todaysEvents s) \<and>
               s' = s\<lparr>todaysEvents := (todaysEvents s)[numberOfTodaysEvents s := entryFor tn (events s ! i)],
                      numberOfTodaysEvents := numberOfTodaysEvents s + 1\<rparr> \<and>
               colourOf (type (events s ! i)) = Inr (r l', g l', b l')
          else s' = s \<and> r l' = r l \<and> g l' = g l \<and> b l' = b l)"
  using assms
  by (auto simp: matchEvent_def Let_def matches_def entryFor_def entry_written
      split: if_splits sum.splits prod.splits)

lemma matchEvent_total:
  assumes "i < length (events s)" "type (events s ! i) \<noteq> COUNT"
    "matches ti tn (events s ! i) \<longrightarrow> numberOfTodaysEvents s < length (todaysEvents s)"
  shows "\<exists>l' s'. matchEvent ti tn i l s = Inr (l', s')"
proof -
  from colourOf_valid [OF assms(2)] obtain c where "colourOf (type (events s ! i)) = Inr c"
    by blast
  with assms(1,3) show ?thesis
    by (cases c) (auto simp: matchEvent_def Let_def matches_def)
qed


lemma take_Suc_update:
  "n < length xs \<Longrightarrow> take (Suc n) (xs[n := a]) = take n xs @ [a]"
  by (simp add: take_Suc_conv_app_nth)

lemma matchEvents_Inr:
  assumes "matchEvents ti tn idx l s = Inr (l', s')"
    and "numberOfTodaysEvents s \<le> length (todaysEvents s)"
  shows "\<exists>te. s' = s\<lparr>todaysEvents := te,
                      numberOfTodaysEvents := numberOfTodaysEvents s +
                        length (filter (matches ti tn) (map ((!) (events s)) idx))\<rparr> \<and>
              length te = length (todaysEvents s) \<and>
              take (numberOfTodaysEvents s + length (filter (matches ti tn) (map ((!) (events s)) idx))) te =
                take (numberOfTodaysEvents s) (todaysEvents s) @
                map (entryFor tn) (filter (matches ti tn) (map ((!) (events s)) idx)) \<and>
              numberOfTodaysEvents s + length (filter (matches ti tn) (map ((!) (events s)) idx))
                \<le> length (todaysEvents s) \<and>
              (\<forall>i \<in> set idx. i < length (events s)) \<and>
              (idx \<noteq> [] \<longrightarrow> thisDay l' = isEventOnDate (events s ! last idx) ti) \<and>
              (filter (matches ti tn) (map ((!) (events s)) idx) \<noteq> [] \<longrightarrow>
                 colourOf (type (last (filter (matches ti tn) (map ((!) (events s)) idx)))) =
                   Inr (r l', g l', b l')) \<and>
              (filter (matches ti tn) (map ((!) (events s)) idx) = [] \<longrightarrow>
                 r l' = r l \<and> g l' = g l \<and> b l' = b l)"
  using assms
proof (induction idx arbitrary: l s)
  case Nil
  then show ?case
    by (intro exI [of _ "todaysEvents s"]) auto
next
  case (Cons i rest)
  from Cons.prems obtain l1 s1 where
    step: "matchEvent ti tn i l s = Inr (l1, s1)" and
    loop: "matchEvents ti tn rest l1 s1 = Inr (l', s')"
    by (auto split: sum.splits)
  note body = matchEvent_Inr [OF step]
  from body have ev: "events s1 = events s"
    by (auto split: if_splits)
  from body Cons.prems(2) have le: "numberOfTodaysEvents s1 \<le> length (todaysEvents s1)"
    by (auto split: if_splits)
  let ?ms = "filter (matches ti tn) (map ((!) (events s)) rest)"
  from Cons.IH [OF loop le] ev obtain te where te:
    "s' = s1\<lparr>todaysEvents := te,
            numberOfTodaysEvents := numberOfTodaysEvents s1 + length ?ms\<rparr>"
    "length te = length (todaysEvents s1)"
    "take (numberOfTodaysEvents s1 + length ?ms) te =
       take (numberOfTodaysEvents s1) (todaysEvents s1) @ map (entryFor tn) ?ms"
    "numberOfTodaysEvents s1 + length ?ms \<le> length (todaysEvents s1)"
    "\<forall>i \<in> set rest. i < length (events s)"
    "rest \<noteq> [] \<longrightarrow> thisDay l' = isEventOnDate (events s ! last rest) ti"
    "?ms \<noteq> [] \<longrightarrow> colourOf (type (last ?ms)) = Inr (r l', g l', b l')"
    "?ms = [] \<longrightarrow> r l' = r l1 \<and> g l' = g l1 \<and> b l' = b l1"
    by auto
  have last_day: "thisDay l' = isEventOnDate (events s ! last (i # rest)) ti"
  proof (cases rest)
    case Nil
    with loop body show ?thesis by simp
  next
    case (Cons j more)
    with te(6) show ?thesis by simp
  qed
  show ?case
  proof (cases "matches ti tn (events s ! i)")
    case True
    with body have s1:
      "numberOfTodaysEvents s < length (todaysEvents s)"
      "s1 = s\<lparr>todaysEvents := (todaysEvents s)[numberOfTodaysEvents s := entryFor tn (events s ! i)],
               numberOfTodaysEvents := numberOfTodaysEvents s + 1\<rparr>"
      "colourOf (type (events s ! i)) = Inr (r l1, g l1, b l1)"
      by simp_all
    from True s1 te body last_day show ?thesis
      by (intro exI [of _ te]) (auto simp: take_Suc_update)
  next
    case False
    with body have "s1 = s" "r l1 = r l" "g l1 = g l" "b l1 = b l"
      by simp_all
    with False te body last_day show ?thesis
      by (intro exI [of _ te]) auto
  qed
qed


lemma matchEvents_total:
  assumes "\<forall>i \<in> set idx. i < length (events s) \<and> type (events s ! i) \<noteq> COUNT"
    and "numberOfTodaysEvents s + length (filter (matches ti tn) (map ((!) (events s)) idx))
           \<le> length (todaysEvents s)"
  shows "\<exists>l' s'. matchEvents ti tn idx l s = Inr (l', s')"
  using assms
proof (induction idx arbitrary: l s)
  case Nil
  then show ?case by simp
next
  case (Cons i rest)
  from Cons.prems have i: "i < length (events s)" "type (events s ! i) \<noteq> COUNT"
    and room: "matches ti tn (events s ! i) \<longrightarrow> numberOfTodaysEvents s < length (todaysEvents s)"
    by auto
  from matchEvent_total [OF i room] obtain l1 s1 where
    step: "matchEvent ti tn i l s = Inr (l1, s1)"
    by blast
  note body = matchEvent_Inr [OF step]
  from body have ev: "events s1 = events s" and len: "length (todaysEvents s1) = length (todaysEvents s)"
    by (auto split: if_splits)
  from body have n1: "numberOfTodaysEvents s1 =
      numberOfTodaysEvents s + (if matches ti tn (events s ! i) then 1 else 0)"
    by (auto split: if_splits)
  from Cons.prems(1) ev have p1: "\<forall>i \<in> set rest. i < length (events s1) \<and> type (events s1 ! i) \<noteq> COUNT"
    by simp
  from Cons.prems(2) ev len n1 have p2:
    "numberOfTodaysEvents s1 + length (filter (matches ti tn) (map ((!) (events s1)) rest))
       \<le> length (todaysEvents s1)"
    by (simp split: if_splits)
  from Cons.IH [OF p1 p2, of l1] step show ?case
    by simp
qed

subsection \<open>The pixel buffer\<close>

lemma stored_events:
  "n \<le> length xs \<Longrightarrow> map ((!) xs) [0..<n] = take n xs"
  by (simp add: list_eq_iff_nth_eq)

lemma setPixelColor_eq: "setPixelColor n c s = s\<lparr>pixels := (pixels s)[n := c]\<rparr>"
proof (cases "n < length (pixels s)")
  case True
  then show ?thesis by (simp add: setPixelColor_def)
next
  case False
  then have "(pixels s)[n := c] = pixels s"
    by (simp add: list_update_beyond)
  with False show ?thesis by (simp add: setPixelColor_def)
qed

lemma fold_setPixelColor:
  "\<exists>P. fold (\<lambda>p. setPixelColor p (f p)) ps s = s\<lparr>pixels := P\<rparr> \<and> length P = length (pixels s)"
proof (induction ps arbitrary: s)
  case Nil
  show ?case by (intro exI [of _ "pixels s"]) simp
next
  case (Cons p ps)
  from Cons [of "setPixelColor p (f p) s"] show ?case
    by (auto simp: setPixelColor_eq)
qed

lemma showSeveral_Inr:
  "showSeveral ps s = Inr s2 \<Longrightarrow> \<exists>P. s2 = s\<lparr>pixels := P\<rparr> \<and> length P = length (pixels s)"
proof (induction ps arbitrary: s)
  case Nil
  then show ?case by (intro exI [of _ "pixels s"]) simp
next
  case (Cons p ps)
  from Cons.prems obtain c where
    "showSeveral ps (setPixelColor p c s) = Inr s2"
    by (auto split: if_splits sum.splits)
  from Cons.IH [OF this] show ?case
    by (auto simp: setPixelColor_eq)
qed

lemma display_Inr:
  assumes "display l s = Inr s2"
  shows "\<exists>P. s2 = s\<lparr>pixels := P\<rparr> \<and> length P = length (pixels s)"
proof -
  consider "numberOfTodaysEvents s = 1" | "1 < numberOfTodaysEvents s" | "numberOfTodaysEvents s = 0"
    by linarith
  then show ?thesis
  proof cases
    case 1
    with assms fold_setPixelColor [of "\<lambda>p. if p \<noteq> numOfNeoPixels div 2 \<and> thisDay l then (0, 0, 0) else (r l, g l, b l)"
        "[0..<numOfNeoPixels]" s]
    show ?thesis by (auto simp: display_def)
  next
    case 2
    with assms have "showSeveral [1..<numOfNeoPixels] (setPixelColor 0 (0, 0, 0) s) = Inr s2"
      by (simp add: display_def)
    from showSeveral_Inr [OF this] show ?thesis
      by (auto simp: setPixelColor_eq)
  next
    case 3
    with assms show ?thesis
      by (intro exI [of _ "replicate (length (pixels s)) (0, 0, 0)"]) (auto simp: display_def clear_def)
  qed
qed

lemma updateLeds_refresh:
  assumes "refreshes c s"
  shows "updateLeds ok (Some c) s =
           (case matchEvents (timeinfo c) (timeinfoNextDay c) [0..<numberOfEvents s] initialLocals
                   ((initStatics (timeinfoFirst c) s)\<lparr>numberOfTodaysEvents := 0\<rparr>) of
              Inl err \<Rightarrow> Inl err
            | Inr (l, s1) \<Rightarrow>
                (case display l s1 of
                   Inl err \<Rightarrow> Inl err
                 | Inr s2 \<Rightarrow>
                     Inr (lastMonth s2 \<noteq> tm_mon (timeinfo c),
                          (show_pixels (if \<not> ok then setPixelColor 0 (255, 0, 0) s2 else s2))
                            \<lparr>lastMonth := tm_mon (timeinfo c), lastDay := tm_mday (timeinfo c)\<rparr>)))"
proof -
  have n: "numberOfEvents (initStatics (timeinfoFirst c) s) = numberOfEvents s"
    by (simp add: initStatics_def)
  from assms show ?thesis
    by (auto simp: updateLeds_def refreshes_def Let_def n show_pixels_def setPixelColor_eq
        split: sum.splits prod.splits)
qed


subsection \<open>One refresh, step by step\<close>

lemma initStatics_fields:
  "events (initStatics t s) = events s" "numberOfEvents (initStatics t s) = numberOfEvents s"
  "todaysEvents (initStatics t s) = todaysEvents s" "pixels (initStatics t s) = pixels s"
  by (simp_all add: initStatics_def)

lemma refresh_steps:
  assumes "updateLeds ok (Some c) s = Inr (newMonth, s')" and "refreshes c s"
  shows "\<exists>l s1 s2.
           matchEvents (timeinfo c) (timeinfoNextDay c) [0..<numberOfEvents s] initialLocals
             ((initStatics (timeinfoFirst c) s)\<lparr>numberOfTodaysEvents := 0\<rparr>) = Inr (l, s1) \<and>
           display l s1 = Inr s2 \<and>
           s' = (show_pixels (if \<not> ok then setPixelColor 0 (255, 0, 0) s2 else s2))
                  \<lparr>lastMonth := tm_mon (timeinfo c), lastDay := tm_mday (timeinfo c)\<rparr> \<and>
           newMonth = (lastMonth s2 \<noteq> tm_mon (timeinfo c))"
  using assms(1) unfolding updateLeds_refresh [OF assms(2)]
  by (auto split: sum.splits prod.splits)

lemma loop_result:
  assumes "matchEvents (timeinfo c) (timeinfoNextDay c) [0..<numberOfEvents s] l0
             ((initStatics (timeinfoFirst c) s)\<lparr>numberOfTodaysEvents := 0\<rparr>) = Inr (l, s1)"
  shows "numberOfEvents s \<le> length (events s) \<and>
         numberOfTodaysEvents s1 = length (matchingEvents c s) \<and>
         length (todaysEvents s1) = length (todaysEvents s) \<and>
         take (length (matchingEvents c s)) (todaysEvents s1) =
           map (entryFor (timeinfoNextDay c)) (matchingEvents c s) \<and>
         length (matchingEvents c s) \<le> length (todaysEvents s) \<and>
         pixels s1 = pixels s \<and>
         (0 < numberOfEvents s \<longrightarrow>
            thisDay l = isEventOnDate (events s ! (numberOfEvents s - 1)) (timeinfo c)) \<and>
         (matchingEvents c s \<noteq> [] \<longrightarrow>
            colourOf (type (last (matchingEvents c s))) = Inr (r l, g l, b l))"
proof -
  let ?s0 = "(initStatics (timeinfoFirst c) s)\<lparr>numberOfTodaysEvents := 0\<rparr>"
  have le: "numberOfTodaysEvents ?s0 \<le> length (todaysEvents ?s0)"
    by simp
  let ?f = "filter (matches (timeinfo c) (timeinfoNextDay c))
              (map ((!) (events ?s0)) [0..<numberOfEvents s])"
  from matchEvents_Inr [OF assms le] obtain te where te:
    "s1 = ?s0\<lparr>todaysEvents := te, numberOfTodaysEvents := numberOfTodaysEvents ?s0 + length ?f\<rparr>"
    "length te = length (todaysEvents ?s0)"
    "take (numberOfTodaysEvents ?s0 + length ?f) te =
       take (numberOfTodaysEvents ?s0) (todaysEvents ?s0) @ map (entryFor (timeinfoNextDay c)) ?f"
    "numberOfTodaysEvents ?s0 + length ?f \<le> length (todaysEvents ?s0)"
    "\<forall>i \<in> set [0..<numberOfEvents s]. i < length (events ?s0)"
    "[0..<numberOfEvents s] \<noteq> [] \<longrightarrow>
       thisDay l = isEventOnDate (events ?s0 ! last [0..<numberOfEvents s]) (timeinfo c)"
    "?f \<noteq> [] \<longrightarrow> colourOf (type (last ?f)) = Inr (r l, g l, b l)"
    by blast
  from te(5) have n: "numberOfEvents s \<le> length (events s)"
    by (cases "numberOfEvents s") (auto simp: initStatics_fields less_Suc_eq_le Suc_le_eq)
  then have ms: "?f = matchingEvents c s"
    by (simp add: matchingEvents_def stored_events initStatics_fields)
  from te(1,2,3,4,6,7) n show ?thesis
    unfolding ms by (simp add: initStatics_fields)
qed


lemma showSeveral_total:
  assumes "\<forall>p \<in> set ps. p - 1 < length (todaysEvents s) \<and>
                       todaysType (todaysEvents s ! (p - 1)) \<noteq> COUNT"
  shows "\<exists>s2. showSeveral ps s = Inr s2"
  using assms
proof (induction ps arbitrary: s)
  case Nil
  show ?case by simp
next
  case (Cons p ps)
  from Cons.prems have ok: "p - 1 < length (todaysEvents s)"
    and ty: "todaysType (todaysEvents s ! (p - 1)) \<noteq> COUNT"
    by simp_all
  from colourOf_valid [OF ty] obtain c where c: "colourOf (todaysType (todaysEvents s ! (p - 1))) = Inr c"
    by blast
  from Cons.prems have "\<forall>q \<in> set ps. q - 1 < length (todaysEvents (setPixelColor p c s)) \<and>
                        todaysType (todaysEvents (setPixelColor p c s) ! (q - 1)) \<noteq> COUNT"
    by (simp add: setPixelColor_eq)
  from Cons.IH [OF this] ok c show ?case
    by simp
qed

lemma pixel_indices: "[1..<numOfNeoPixels] = [1, 2]" "[0..<numOfNeoPixels] = [0, 1, 2]"
  by (simp_all add: numOfNeoPixels_def upt_rec)

lemma display_total:
  assumes "\<forall>j < numberOfTodaysEvents s. j < length (todaysEvents s) \<and>
                    todaysType (todaysEvents s ! j) \<noteq> COUNT"
  shows "\<exists>s2. display l s = Inr s2"
proof (cases "1 < numberOfTodaysEvents s")
  case True
  with assms have "\<forall>p \<in> set [1..<numOfNeoPixels].
      p - 1 < length (todaysEvents (setPixelColor 0 (0, 0, 0) s)) \<and>
      todaysType (todaysEvents (setPixelColor 0 (0, 0, 0) s) ! (p - 1)) \<noteq> COUNT"
    unfolding pixel_indices by (auto simp: setPixelColor_eq)
  from showSeveral_total [OF this] True show ?thesis
    by (simp add: display_def)
next
  case False
  then show ?thesis
    by (simp add: display_def)
qed

lemma refresh_total:
  assumes "refreshes c s"
    and "numberOfEvents s \<le> length (events s)"
    and "\<forall>i < numberOfEvents s. type (events s ! i) \<noteq> COUNT"
    and "length (matchingEvents c s) \<le> length (todaysEvents s)"
  shows "\<exists>newMonth s'. updateLeds ok (Some c) s = Inr (newMonth, s')"
proof -
  let ?s0 = "(initStatics (timeinfoFirst c) s)\<lparr>numberOfTodaysEvents := 0\<rparr>"
  have ms: "filter (matches (timeinfo c) (timeinfoNextDay c))
              (map ((!) (events ?s0)) [0..<numberOfEvents s]) = matchingEvents c s"
    using assms(2) by (simp add: matchingEvents_def stored_events initStatics_fields)
  have valid: "\<forall>i \<in> set [0..<numberOfEvents s]. i < length (events ?s0) \<and> type (events ?s0 ! i) \<noteq> COUNT"
    using assms(2,3) by (simp add: initStatics_fields)
  have room: "numberOfTodaysEvents ?s0 +
      length (filter (matches (timeinfo c) (timeinfoNextDay c))
                (map ((!) (events ?s0)) [0..<numberOfEvents s])) \<le> length (todaysEvents ?s0)"
    unfolding ms using assms(4) by (simp add: initStatics_fields)
  from matchEvents_total [OF valid room, of initialLocals] obtain l s1 where
    loop: "matchEvents (timeinfo c) (timeinfoNextDay c) [0..<numberOfEvents s] initialLocals ?s0 = Inr (l, s1)"
    by blast
  note res = loop_result [OF loop]
  have "\<forall>j < numberOfTodaysEvents s1. j < length (todaysEvents s1) \<and>
                 todaysType (todaysEvents s1 ! j) \<noteq> COUNT"
  proof (intro allI impI)
    fix j
    assume "j < numberOfTodaysEvents s1"
    with res have j: "j < length (matchingEvents c s)"
      by simp
    with res have inb: "j < length (todaysEvents s1)"
      by simp
    from j have "todaysEvents s1 ! j = take (length (matchingEvents c s)) (todaysEvents s1) ! j"
      by simp
    also from res j have "\<dots> = entryFor (timeinfoNextDay c) (matchingEvents c s ! j)"
      by simp
    finally have ty: "todaysType (todaysEvents s1 ! j) = type (matchingEvents c s ! j)"
      by (simp add: entryFor_def)
    from j have "matchingEvents c s ! j \<in> set (take (numberOfEvents s) (events s))"
      using nth_mem [OF j] by (simp add: matchingEvents_def)
    then obtain i where "i < numberOfEvents s" "matchingEvents c s ! j = events s ! i"
      using assms(2) by (auto simp: in_set_conv_nth)
    with assms(3) ty inb show "j < length (todaysEvents s1) \<and> todaysType (todaysEvents s1 ! j) \<noteq> COUNT"
      by simp
  qed
  from display_total [OF this, of l] obtain s2 where "display l s1 = Inr s2"
    by blast
  with loop show ?thesis
    by (simp add: updateLeds_refresh [OF assms(1)])
qed


subsection \<open>The entries of \<^verbatim>\<open>todaysEvents\<close>\<close>

lemma stored_valid:
  assumes "numberOfEvents s \<le> length (events s)"
    and "list_all (\<lambda>e. type e \<noteq> COUNT) (take (numberOfEvents s) (events s))"
  shows "\<forall>i < numberOfEvents s. type (events s ! i) \<noteq> COUNT"
  using assms by (auto simp: list_all_length)

text \<open>
  A refresh writes one entry for each stored event that matches, in the order of the
  scan and with no merging by category. While the matching events fit the array, the
  refresh completes and every write is inside it.
\<close>

lemma refresh_within_capacity:
  assumes "refreshes c s"
    and "length (todaysEvents s) = trashIndex COUNT"
    and "numberOfEvents s \<le> length (events s)"
    and "list_all (\<lambda>e. type e \<noteq> COUNT) (take (numberOfEvents s) (events s))"
    and "length (matchingEvents c s) \<le> trashIndex COUNT"
  shows "\<exists>newMonth s'. updateLeds ok (Some c) s = Inr (newMonth, s') \<and>
           numberOfTodaysEvents s' = length (matchingEvents c s) \<and>
           numberOfTodaysEvents s' \<le> trashIndex COUNT \<and>
           length (todaysEvents s') = trashIndex COUNT \<and>
           take (numberOfTodaysEvents s') (todaysEvents s') =
             map (entryFor (timeinfoNextDay c)) (matchingEvents c s)"
proof -
  from assms(2,5) have room: "length (matchingEvents c s) \<le> length (todaysEvents s)"
    by simp
  from refresh_total [OF assms(1,3) stored_valid [OF assms(3,4)] room, of ok]
  obtain newMonth s' where run: "updateLeds ok (Some c) s = Inr (newMonth, s')"
    by blast
  from refresh_steps [OF run assms(1)] obtain l s1 s2 where steps:
    "matchEvents (timeinfo c) (timeinfoNextDay c) [0..<numberOfEvents s] initialLocals
       ((initStatics (timeinfoFirst c) s)\<lparr>numberOfTodaysEvents := 0\<rparr>) = Inr (l, s1)"
    "display l s1 = Inr s2"
    "s' = (show_pixels (if \<not> ok then setPixelColor 0 (255, 0, 0) s2 else s2))
            \<lparr>lastMonth := tm_mon (timeinfo c), lastDay := tm_mday (timeinfo c)\<rparr>"
    by blast
  from display_Inr [OF steps(2)] obtain P where "s2 = s1\<lparr>pixels := P\<rparr>"
    by blast
  with steps(3) have same: "todaysEvents s' = todaysEvents s1"
    "numberOfTodaysEvents s' = numberOfTodaysEvents s1"
    by (simp_all add: show_pixels_def setPixelColor_eq)
  from loop_result [OF steps(1)] same assms(2,5) run show ?thesis
    by simp
qed

text \<open>With more matching events than slots, the refresh writes behind the array.\<close>

lemma refresh_overflow:
  assumes "refreshes c s" and "length (todaysEvents s) < length (matchingEvents c s)"
  shows "updateLeds ok (Some c) s = Inl OutOfBounds"
proof (cases "updateLeds ok (Some c) s")
  case (Inl err)
  then show ?thesis by (cases err) simp
next
  case (Inr res)
  obtain newMonth s' where "res = (newMonth, s')"
    by (cases res)
  with Inr have run: "updateLeds ok (Some c) s = Inr (newMonth, s')"
    by simp
  from refresh_steps [OF run assms(1)] obtain l s1 where
    "matchEvents (timeinfo c) (timeinfoNextDay c) [0..<numberOfEvents s] initialLocals
       ((initStatics (timeinfoFirst c) s)\<lparr>numberOfTodaysEvents := 0\<rparr>) = Inr (l, s1)"
    by blast
  from loop_result [OF this] assms(2) show ?thesis
    by simp
qed

text \<open>
  C1 on six stored events of 2 April, refreshed on 1 April, after a successful and after
  a failed fetch: all six match, and the sixth write goes to \<^verbatim>\<open>todaysEvents[5]\<close>,
  behind the five slots of the array.
\<close>

theorem todaysEvents_overflow:
  "numberOfEvents (storedState sixOnOneDay) = 6 \<and>
   length (todaysEvents (storedState sixOnOneDay)) = trashIndex COUNT \<and>
   matchingEvents aprilFirstTick (storedState sixOnOneDay) = sixOnOneDay \<and>
   updateLeds True (Some aprilFirstTick) (storedState sixOnOneDay) = Inl OutOfBounds \<and>
   updateLeds False (Some aprilFirstTick) (storedState sixOnOneDay) = Inl OutOfBounds"
  by code_simp

subsection \<open>An event on both dates\<close>

lemma filter_take_nth:
  assumes "i < n" and "n \<le> length xs" and "P (xs ! i)"
  shows "filter P (take n xs) ! length (filter P (take i xs)) = xs ! i \<and>
         length (filter P (take i xs)) < length (filter P (take n xs)) \<and>
         filter P (take (Suc i) xs) = filter P (take i xs) @ [xs ! i]"
proof -
  from assms(1,2) have i: "i < length (take n xs)" and il: "i < length xs"
    by simp_all
  from assms(1) have "take i (take n xs) = take i xs" and "take n xs ! i = xs ! i"
    by (simp_all add: min_def)
  with id_take_nth_drop [OF i] have "take n xs = take i xs @ xs ! i # drop (Suc i) (take n xs)"
    by simp
  then have "filter P (take n xs) =
      filter P (take i xs) @ xs ! i # filter P (drop (Suc i) (take n xs))"
    using assms(3) by (metis filter.simps(2) filter_append)
  then show ?thesis
    using assms(3) il by (simp add: take_Suc_conv_app_nth nth_append)
qed

text \<open>
  C3, as stated, fails: with a clock that gives 1 April for both dates, the one stored
  event of 1 April is on both, and its entry is tagged \<^verbatim>\<open>TOMORROW\<close>.
\<close>

theorem double_match_tagged_tomorrow:
  "updateLeds True (Some stoppedClock) (storedState [residualApril1]) =
     Inr (False, refreshed (storedState [residualApril1])
        [\<lparr>todaysType = RESIDUAL, todaysDay = TOMORROW\<rparr>]
        [(0, 0, 0), (150, 150, 140), (0, 0, 0)]) \<and>
   isEventOnDate residualApril1 (timeinfo stoppedClock) \<and>
   isEventOnDate residualApril1 (timeinfoNextDay stoppedClock) \<and>
   TOMORROW \<noteq> TODAY"
  by code_simp

text \<open>
  C3, amended: in a refresh, a stored event that is on today's and on tomorrow's date
  gets exactly one entry (the entries up to and including it are one more than the
  entries before it, and the entries are as many as the matching events), and that
  entry carries its category and the tag \<^verbatim>\<open>TOMORROW\<close>: the assignment of
  \<^verbatim>\<open>TOMORROW\<close> comes after the one of \<^verbatim>\<open>TODAY\<close> and overwrites it.
\<close>

theorem double_match_entry:
  assumes "updateLeds ok (Some c) s = Inr (newMonth, s')" and "refreshes c s"
    and "i < numberOfEvents s"
    and "isEventOnDate (events s ! i) (timeinfo c)"
    and "isEventOnDate (events s ! i) (timeinfoNextDay c)"
  shows "numberOfTodaysEvents s' = length (matchingEvents c s) \<and>
         length (matchingEvents c (s\<lparr>numberOfEvents := Suc i\<rparr>)) =
           Suc (length (matchingEvents c (s\<lparr>numberOfEvents := i\<rparr>))) \<and>
         length (matchingEvents c (s\<lparr>numberOfEvents := i\<rparr>)) < numberOfTodaysEvents s' \<and>
         todaysEvents s' ! length (matchingEvents c (s\<lparr>numberOfEvents := i\<rparr>)) =
           \<lparr>todaysType = type (events s ! i), todaysDay = TOMORROW\<rparr>"
proof -
  from refresh_steps [OF assms(1,2)] obtain l s1 s2 where steps:
    "matchEvents (timeinfo c) (timeinfoNextDay c) [0..<numberOfEvents s] initialLocals
       ((initStatics (timeinfoFirst c) s)\<lparr>numberOfTodaysEvents := 0\<rparr>) = Inr (l, s1)"
    "display l s1 = Inr s2"
    "s' = (show_pixels (if \<not> ok then setPixelColor 0 (255, 0, 0) s2 else s2))
            \<lparr>lastMonth := tm_mon (timeinfo c), lastDay := tm_mday (timeinfo c)\<rparr>"
    by blast
  from display_Inr [OF steps(2)] obtain P where "s2 = s1\<lparr>pixels := P\<rparr>"
    by blast
  with steps(3) have same: "todaysEvents s' = todaysEvents s1"
    "numberOfTodaysEvents s' = numberOfTodaysEvents s1"
    by (simp_all add: show_pixels_def setPixelColor_eq)
  note res = loop_result [OF steps(1)]
  let ?P = "matches (timeinfo c) (timeinfoNextDay c)"
  let ?k = "length (filter ?P (take i (events s)))"
  from res have n: "numberOfEvents s \<le> length (events s)"
    by simp
  from assms(4) have "?P (events s ! i)"
    by (simp add: matches_def)
  from filter_take_nth [of i "numberOfEvents s" "events s" ?P, OF assms(3) n this]
  have pos: "matchingEvents c s ! ?k = events s ! i" "?k < length (matchingEvents c s)"
    "filter ?P (take (Suc i) (events s)) = filter ?P (take i (events s)) @ [events s ! i]"
    by (simp_all add: matchingEvents_def)
  from pos(2) have "todaysEvents s1 ! ?k = take (length (matchingEvents c s)) (todaysEvents s1) ! ?k"
    by simp
  also from res pos(2) have "\<dots> = entryFor (timeinfoNextDay c) (matchingEvents c s ! ?k)"
    by simp
  finally have "todaysEvents s1 ! ?k = \<lparr>todaysType = type (events s ! i), todaysDay = TOMORROW\<rparr>"
    using pos(1) assms(5) by (simp add: entryFor_def)
  with res same pos(2,3) show ?thesis
    by (simp add: matchingEvents_def)
qed

text \<open>A Bio event in June, then the Residual event of 1 April, under the stopped clock.\<close>

theorem double_match_entry_witness:
  "isEventOnDate residualApril1 (timeinfo stoppedClock) \<and>
   isEventOnDate residualApril1 (timeinfoNextDay stoppedClock) \<and>
   refreshes stoppedClock (storedState [bioJune1, residualApril1]) \<and>
   matchingEvents stoppedClock ((storedState [bioJune1, residualApril1])\<lparr>numberOfEvents := Suc 0\<rparr>) = [] \<and>
   todaysEvents (refreshed (storedState [bioJune1, residualApril1])
        [\<lparr>todaysType = RESIDUAL, todaysDay = TOMORROW\<rparr>]
        [(0, 0, 0), (150, 150, 140), (0, 0, 0)]) ! 0 =
     \<lparr>todaysType = RESIDUAL, todaysDay = TOMORROW\<rparr>"
proof -
  let ?s = "storedState [bioJune1, residualApril1]"
  let ?s' = "refreshed ?s [\<lparr>todaysType = RESIDUAL, todaysDay = TOMORROW\<rparr>]
               [(0, 0, 0), (150, 150, 140), (0, 0, 0)]"
  have run: "updateLeds True (Some stoppedClock) ?s = Inr (False, ?s')" by code_simp
  have h2: "refreshes stoppedClock ?s" by code_simp
  have h3: "Suc 0 < numberOfEvents ?s" by code_simp
  have e: "events ?s ! Suc 0 = residualApril1" by code_simp
  have h4: "isEventOnDate (events ?s ! Suc 0) (timeinfo stoppedClock)" by code_simp
  have h5: "isEventOnDate (events ?s ! Suc 0) (timeinfoNextDay stoppedClock)" by code_simp
  have before: "matchingEvents stoppedClock (?s\<lparr>numberOfEvents := Suc 0\<rparr>) = []" by code_simp
  have ty: "type residualApril1 = RESIDUAL" by code_simp
  from double_match_entry [OF run h2 h3 h4 h5] h2 h4 h5 before show ?thesis
    by (simp add: e ty)
qed


subsection \<open>The display of a single match\<close>






subsection \<open>The failure indicator\<close>

text \<open>
  C8: a refresh with \<^verbatim>\<open>lastEventUpdateSuccessful = false\<close> that reaches the
  display shows what the same refresh shows after a successful fetch, except that
  slot 0 is (255, 0, 0); the slots 1 to N - 1 are those of the base rule.
\<close>

theorem failure_overlay:
  assumes "updateLeds False (Some c) s = Inr (newMonth, s')" and "refreshes c s"
    and "length (pixels s) = numOfNeoPixels"
  shows "\<exists>base. updateLeds True (Some c) s = Inr (newMonth, base) \<and>
           length (shown s') = numOfNeoPixels \<and>
           shown s' = (shown base)[0 := (255, 0, 0)] \<and>
           shown s' ! 0 = (255, 0, 0) \<and>
           (\<forall>p. 0 < p \<and> p < numOfNeoPixels \<longrightarrow> shown s' ! p = shown base ! p)"
proof -
  from refresh_steps [OF assms(1,2)] obtain l s1 s2 where steps:
    "matchEvents (timeinfo c) (timeinfoNextDay c) [0..<numberOfEvents s] initialLocals
       ((initStatics (timeinfoFirst c) s)\<lparr>numberOfTodaysEvents := 0\<rparr>) = Inr (l, s1)"
    "display l s1 = Inr s2"
    "s' = (show_pixels (if \<not> False then setPixelColor 0 (255, 0, 0) s2 else s2))
            \<lparr>lastMonth := tm_mon (timeinfo c), lastDay := tm_mday (timeinfo c)\<rparr>"
    "newMonth = (lastMonth s2 \<noteq> tm_mon (timeinfo c))"
    by blast
  let ?base = "(show_pixels s2)\<lparr>lastMonth := tm_mon (timeinfo c), lastDay := tm_mday (timeinfo c)\<rparr>"
  from steps(1,2,4) have base: "updateLeds True (Some c) s = Inr (newMonth, ?base)"
    by (simp add: updateLeds_refresh [OF assms(2)])
  from display_Inr [OF steps(2)] loop_result [OF steps(1)] assms(3)
  have len: "length (pixels s2) = numOfNeoPixels"
    by auto
  then have pos: "0 < length (pixels s2)"
    by (simp add: numOfNeoPixels_def)
  from steps(3) have sh: "shown s' = (pixels s2)[0 := (255, 0, 0)]" and "shown ?base = pixels s2"
    by (simp_all add: show_pixels_def setPixelColor_eq)
  with base len pos show ?thesis
    by (intro exI [of _ ?base]) simp
qed

text \<open>
  Two events of 2 April, refreshed on 1 April: the base rule makes slot 0 black, the
  failed fetch makes it red.
\<close>

theorem failure_overlay_witness:
  "refreshes aprilFirstTick (storedState [residualApril2, bioApril2]) \<and>
   length (pixels (storedState [residualApril2, bioApril2])) = numOfNeoPixels \<and>
   updateLeds True (Some aprilFirstTick) (storedState [residualApril2, bioApril2]) =
     Inr (False, refreshedOn (timeinfo aprilFirstTick) (storedState [residualApril2, bioApril2])
        [\<lparr>todaysType = RESIDUAL, todaysDay = TOMORROW\<rparr>, \<lparr>todaysType = BIO, todaysDay = TOMORROW\<rparr>]
        [(0, 0, 0), (150, 150, 140), (150, 20, 0)]) \<and>
   shown (refreshedOn (timeinfo aprilFirstTick) (storedState [residualApril2, bioApril2])
        [\<lparr>todaysType = RESIDUAL, todaysDay = TOMORROW\<rparr>, \<lparr>todaysType = BIO, todaysDay = TOMORROW\<rparr>]
        [(255, 0, 0), (150, 150, 140), (150, 20, 0)]) =
     [(0, 0, 0), (150, 150, 140), (150, 20, 0)][0 := (255, 0, 0)]"
proof -
  let ?s = "storedState [residualApril2, bioApril2]"
  let ?entries = "[\<lparr>todaysType = RESIDUAL, todaysDay = TOMORROW\<rparr>, \<lparr>todaysType = BIO, todaysDay = TOMORROW\<rparr>]"
  have run: "updateLeds False (Some aprilFirstTick) ?s =
      Inr (False, refreshedOn (timeinfo aprilFirstTick) ?s ?entries [(255, 0, 0), (150, 150, 140), (150, 20, 0)])"
    by code_simp
  have base: "updateLeds True (Some aprilFirstTick) ?s =
      Inr (False, refreshedOn (timeinfo aprilFirstTick) ?s ?entries [(0, 0, 0), (150, 150, 140), (150, 20, 0)])"
    by code_simp
  have h2: "refreshes aprilFirstTick ?s" by code_simp
  have h3: "length (pixels ?s) = numOfNeoPixels" by code_simp
  have sh: "shown (refreshedOn (timeinfo aprilFirstTick) ?s ?entries [(0, 0, 0), (150, 150, 140), (150, 20, 0)]) =
      [(0, 0, 0), (150, 150, 140), (150, 20, 0)]"
    by (simp add: refreshedOn_def)
  from failure_overlay [OF run h2 h3] base sh h2 h3 show ?thesis
    by auto
qed

subsection \<open>A second tick on the same day\<close>

text \<open>
  \<^verbatim>\<open>updateLeds\<close> tests \<^verbatim>\<open>!firstRun && lastDay == timeinfo->tm_mday\<close> but has
  no assignment to \<^verbatim>\<open>firstRun\<close>: once true, the flag stays true, and every call
  that reads the clock goes on to the refresh.
\<close>

lemma firstRun_never_cleared:
  assumes "updateLeds ok now s = Inr (newMonth, s')" and "firstRun s \<or> \<not> staticsInit s"
  shows "firstRun s' \<or> \<not> staticsInit s'" and "now = Some c \<Longrightarrow> refreshes c s"
proof -
  show r: "refreshes c s" if "now = Some c" for c
    using assms(2) by (auto simp: refreshes_def initStatics_def)
  show "firstRun s' \<or> \<not> staticsInit s'"
  proof (cases now)
    case None
    with assms show ?thesis by (simp add: updateLeds_def)
  next
    case (Some c)
    from refresh_steps [OF assms(1) [unfolded Some] r [OF Some]] obtain l s1 s2 where steps:
      "matchEvents (timeinfo c) (timeinfoNextDay c) [0..<numberOfEvents s] initialLocals
         ((initStatics (timeinfoFirst c) s)\<lparr>numberOfTodaysEvents := 0\<rparr>) = Inr (l, s1)"
      "display l s1 = Inr s2"
      "s' = (show_pixels (if \<not> ok then setPixelColor 0 (255, 0, 0) s2 else s2))
              \<lparr>lastMonth := tm_mon (timeinfo c), lastDay := tm_mday (timeinfo c)\<rparr>"
      by blast
    have "numberOfTodaysEvents ((initStatics (timeinfoFirst c) s)\<lparr>numberOfTodaysEvents := 0\<rparr>)
            \<le> length (todaysEvents ((initStatics (timeinfoFirst c) s)\<lparr>numberOfTodaysEvents := 0\<rparr>))"
      by simp
    from matchEvents_Inr [OF steps(1) this] have "firstRun s1 = firstRun (initStatics (timeinfoFirst c) s)"
      by auto
    moreover from display_Inr [OF steps(2)] have "firstRun s2 = firstRun s1"
      by auto
    moreover from steps(3) have "firstRun s' = firstRun s2"
      by (simp add: show_pixels_def setPixelColor_eq)
    moreover from assms(2) have "firstRun (initStatics (timeinfoFirst c) s)"
      by (auto simp: initStatics_def)
    ultimately show ?thesis by simp
  qed
qed

text \<open>
  C4 on a run of the main loop. The first fetch stores the Residual event of 2 April.
  The first tick, on 31 March, refreshes, reports a new month and stores the day of
  month 1, read through the buffer that holds the next day; the fetch that follows and
  the later ticks of 31 March change nothing. The first tick of 1 April finds
  \<^verbatim>\<open>lastDay = 1\<close>, its own day of month, and is not the first tick: it does not
  return early but refreshes, writes one entry, lights the centre pixel and stores
  \<^verbatim>\<open>lastDay = 2\<close>.
\<close>

theorem same_day_tick_refreshes:
  "getIcs (Response HTTP_CODE_OK aprilSecondBody) initialState = Inr (True, storedState [residualApril2]) \<and>
   updateLeds True (Some marchLastTick) (storedState [residualApril2]) =
     Inr (True, refreshedOn (timeinfo marchLastTick) (storedState [residualApril2]) []
                  [(0, 0, 0), (0, 0, 0), (0, 0, 0)]) \<and>
   staticsInit (refreshedOn (timeinfo marchLastTick) (storedState [residualApril2]) []
                  [(0, 0, 0), (0, 0, 0), (0, 0, 0)]) \<and>
   getIcs (Response HTTP_CODE_OK aprilSecondBody)
       (refreshedOn (timeinfo marchLastTick) (storedState [residualApril2]) []
          [(0, 0, 0), (0, 0, 0), (0, 0, 0)]) =
     Inr (True, refreshedOn (timeinfo marchLastTick) (storedState [residualApril2]) []
                  [(0, 0, 0), (0, 0, 0), (0, 0, 0)]) \<and>
   updateLeds True (Some marchLastTick)
       (refreshedOn (timeinfo marchLastTick) (storedState [residualApril2]) []
          [(0, 0, 0), (0, 0, 0), (0, 0, 0)]) =
     Inr (False, refreshedOn (timeinfo marchLastTick) (storedState [residualApril2]) []
                   [(0, 0, 0), (0, 0, 0), (0, 0, 0)]) \<and>
   lastDay (refreshedOn (timeinfo marchLastTick) (storedState [residualApril2]) []
              [(0, 0, 0), (0, 0, 0), (0, 0, 0)]) = tm_mday (timeinfoFirst aprilFirstTick) \<and>
   updateLeds True (Some aprilFirstTick)
       (refreshedOn (timeinfo marchLastTick) (storedState [residualApril2]) []
          [(0, 0, 0), (0, 0, 0), (0, 0, 0)]) =
     Inr (False, refreshedOn (timeinfo aprilFirstTick) (storedState [residualApril2])
                   [\<lparr>todaysType = RESIDUAL, todaysDay = TOMORROW\<rparr>]
                   [(0, 0, 0), (150, 150, 140), (0, 0, 0)]) \<and>
   lastDay (refreshedOn (timeinfo aprilFirstTick) (storedState [residualApril2])
              [\<lparr>todaysType = RESIDUAL, todaysDay = TOMORROW\<rparr>]
              [(0, 0, 0), (150, 150, 140), (0, 0, 0)]) = 2 \<and>
   numberOfTodaysEvents (refreshedOn (timeinfo aprilFirstTick) (storedState [residualApril2])
              [\<lparr>todaysType = RESIDUAL, todaysDay = TOMORROW\<rparr>]
              [(0, 0, 0), (150, 150, 140), (0, 0, 0)]) = 1 \<and>
   shown (refreshedOn (timeinfo aprilFirstTick) (storedState [residualApril2])
              [\<lparr>todaysType = RESIDUAL, todaysDay = TOMORROW\<rparr>]
              [(0, 0, 0), (150, 150, 140), (0, 0, 0)]) = [(0, 0, 0), (150, 150, 140), (0, 0, 0)]"
  by code_simp

subsection \<open>What each operation leaves alone\<close>

lemma parseIcsLine_frame:
  assumes "parseIcsLine line s = Inr s'"
  shows "todaysEvents s' = todaysEvents s \<and> numberOfTodaysEvents s' = numberOfTodaysEvents s \<and>
         pixels s' = pixels s \<and> shown s' = shown s \<and>
         firstRun s' = firstRun s \<and> staticsInit s' = staticsInit s \<and>
         lastMonth s' = lastMonth s \<and> lastDay s' = lastDay s"
  using assms
  by (auto simp: parseIcsLine_def writeEvent_def Let_def split: if_splits sum.splits)

lemma parseIcsLine_valid:
  assumes "parseIcsLine line s = Inr s'" and "storedValid s"
  shows "storedValid s'"
  using assms
  by (auto simp: parseIcsLine_def writeEvent_def Let_def storedValid_def take_Suc_conv_app_nth
      split: if_splits sum.splits elim!: trashIndex.elims)

lemma readLines_frame:
  assumes "readLines body rd s = Inr s'"
  shows "todaysEvents s' = todaysEvents s \<and> numberOfTodaysEvents s' = numberOfTodaysEvents s \<and>
         pixels s' = pixels s \<and> shown s' = shown s \<and>
         firstRun s' = firstRun s \<and> staticsInit s' = staticsInit s \<and>
         lastMonth s' = lastMonth s \<and> lastDay s' = lastDay s"
  using assms
proof (induction body arbitrary: rd s)
  case Nil
  then show ?case by simp
next
  case (Cons raw rest)
  show ?case
  proof (cases "length raw = 0")
    case True
    with Cons.prems Cons.IH show ?thesis
      by (auto split: if_splits)
  next
    case False
    obtain rd' em where re: "reassemble raw (rd\<lparr>zeroLines := 0\<rparr>) = (rd', em)"
      by (cases "reassemble raw (rd\<lparr>zeroLines := 0\<rparr>)")
    show ?thesis
    proof (cases em)
      case None
      with False re Cons.prems Cons.IH show ?thesis by simp
    next
      case (Some logical)
      with False re Cons.prems obtain s1 where
        p: "parseIcsLine logical s = Inr s1" and r: "readLines rest rd' s1 = Inr s'"
        by (auto split: sum.splits)
      from Cons.IH [OF r] parseIcsLine_frame [OF p] show ?thesis
        by simp
    qed
  qed
qed

lemma readLines_valid:
  assumes "readLines body rd s = Inr s'" and "storedValid s"
  shows "storedValid s'"
  using assms
proof (induction body arbitrary: rd s)
  case Nil
  then show ?case by simp
next
  case (Cons raw rest)
  show ?case
  proof (cases "length raw = 0")
    case True
    with Cons.prems Cons.IH show ?thesis
      by (auto split: if_splits)
  next
    case False
    obtain rd' em where re: "reassemble raw (rd\<lparr>zeroLines := 0\<rparr>) = (rd', em)"
      by (cases "reassemble raw (rd\<lparr>zeroLines := 0\<rparr>)")
    show ?thesis
    proof (cases em)
      case None
      with False re Cons.prems Cons.IH show ?thesis by simp
    next
      case (Some logical)
      with False re Cons.prems obtain s1 where
        p: "parseIcsLine logical s = Inr s1" and r: "readLines rest rd' s1 = Inr s'"
        by (auto split: sum.splits)
      from Cons.IH [OF r parseIcsLine_valid [OF p Cons.prems(2)]] show ?thesis .
    qed
  qed
qed


lemma getIcs_frame:
  assumes "getIcs t s = Inr (ok, s')"
  shows "todaysEvents s' = todaysEvents s \<and> pixels s' = pixels s \<and>
         firstRun s' = firstRun s \<and> staticsInit s' = staticsInit s"
proof (cases t)
  case UnableToConnect
  with assms show ?thesis by (simp add: getIcs_def)
next
  case (Response httpCode body)
  show ?thesis
  proof (cases "httpCode \<le> 0 \<or> httpCode \<noteq> HTTP_CODE_OK")
    case True
    with assms Response show ?thesis by (auto simp: getIcs_def split: if_splits)
  next
    case False
    with assms Response have "readLines body initialReader (s\<lparr>numberOfEvents := 0\<rparr>) = Inr s'"
      by (auto simp: getIcs_def split: sum.splits if_splits)
    from readLines_frame [OF this] show ?thesis by simp
  qed
qed

lemma getIcs_valid:
  assumes "getIcs t s = Inr (ok, s')" and "storedValid s"
  shows "storedValid s'"
proof (cases t)
  case UnableToConnect
  with assms show ?thesis by (simp add: getIcs_def)
next
  case (Response httpCode body)
  show ?thesis
  proof (cases "httpCode \<le> 0 \<or> httpCode \<noteq> HTTP_CODE_OK")
    case True
    with assms Response show ?thesis by (auto simp: getIcs_def split: if_splits)
  next
    case False
    with assms Response have r: "readLines body initialReader (s\<lparr>numberOfEvents := 0\<rparr>) = Inr s'"
      by (auto simp: getIcs_def split: sum.splits if_splits)
    have "storedValid (s\<lparr>numberOfEvents := 0\<rparr>)"
      by (simp add: storedValid_def)
    from readLines_valid [OF r this] show ?thesis .
  qed
qed

lemma updateLeds_frame:
  assumes "updateLeds ok now s = Inr (newMonth, s')"
  shows "events s' = events s \<and> numberOfEvents s' = numberOfEvents s \<and>
         length (todaysEvents s') = length (todaysEvents s) \<and>
         length (pixels s') = length (pixels s)"
proof (cases now)
  case None
  with assms show ?thesis by (simp add: updateLeds_def)
next
  case (Some c)
  show ?thesis
  proof (cases "refreshes c s")
    case False
    with assms Some show ?thesis
      by (auto simp: updateLeds_def refreshes_def Let_def initStatics_fields)
  next
    case True
    from refresh_steps [OF assms [unfolded Some] True] obtain l s1 s2 where steps:
      "matchEvents (timeinfo c) (timeinfoNextDay c) [0..<numberOfEvents s] initialLocals
         ((initStatics (timeinfoFirst c) s)\<lparr>numberOfTodaysEvents := 0\<rparr>) = Inr (l, s1)"
      "display l s1 = Inr s2"
      "s' = (show_pixels (if \<not> ok then setPixelColor 0 (255, 0, 0) s2 else s2))
              \<lparr>lastMonth := tm_mon (timeinfo c), lastDay := tm_mday (timeinfo c)\<rparr>"
      by blast
    have "numberOfTodaysEvents ((initStatics (timeinfoFirst c) s)\<lparr>numberOfTodaysEvents := 0\<rparr>)
            \<le> length (todaysEvents ((initStatics (timeinfoFirst c) s)\<lparr>numberOfTodaysEvents := 0\<rparr>))"
      by simp
    from matchEvents_Inr [OF steps(1) this]
    have s1: "events s1 = events s" "numberOfEvents s1 = numberOfEvents s"
      "length (todaysEvents s1) = length (todaysEvents s)" "pixels s1 = pixels s"
      by (auto simp: initStatics_fields)
    from display_Inr [OF steps(2)] obtain P where "s2 = s1\<lparr>pixels := P\<rparr>" "length P = length (pixels s1)"
      by blast
    with steps(3) s1 show ?thesis
      by (simp add: show_pixels_def setPixelColor_eq)
  qed
qed

lemma blink_frame:
  "\<exists>P Q. snd ((blink ^^ n) (t, s)) = s\<lparr>pixels := P, shown := Q\<rparr> \<and> length P = length (pixels s)"
proof (induction n)
  case 0
  show ?case by (intro exI [of _ "pixels s"] exI [of _ "shown s"]) simp
next
  case (Suc n)
  then obtain P Q where pq: "snd ((blink ^^ n) (t, s)) = s\<lparr>pixels := P, shown := Q\<rparr>"
    "length P = length (pixels s)"
    by blast
  obtain t' where t': "(blink ^^ n) (t, s) = (t', s\<lparr>pixels := P, shown := Q\<rparr>)"
    using pq(1) by (cases "(blink ^^ n) (t, s)") simp
  from fold_setPixelColor [of "\<lambda>p. (if \<not> t' then 255 else 0, 0, 0)" "[0..<numOfNeoPixels]"
      "s\<lparr>pixels := P, shown := Q\<rparr>"]
  obtain P' where "fold (\<lambda>p. setPixelColor p (if \<not> t' then 255 else 0, 0, 0)) [0..<numOfNeoPixels]
      (s\<lparr>pixels := P, shown := Q\<rparr>) = (s\<lparr>pixels := P, shown := Q\<rparr>)\<lparr>pixels := P'\<rparr>"
    "length P' = length P"
    by auto
  note fold = this
  have "snd ((blink ^^ Suc n) (t, s)) = snd (blink (t', s\<lparr>pixels := P, shown := Q\<rparr>))"
    using t' by simp
  also have "\<dots> = show_pixels (fold (\<lambda>p. setPixelColor p (if \<not> t' then 255 else 0, 0, 0))
      [0..<numOfNeoPixels] (s\<lparr>pixels := P, shown := Q\<rparr>))"
    by (simp add: blink_def Let_def)
  also have "\<dots> = s\<lparr>pixels := P', shown := P'\<rparr>"
    using fold(1) by (simp add: show_pixels_def)
  finally show ?case
    using fold(2) pq(2) by (intro exI [of _ P'] exI [of _ P']) simp
qed

lemma handleFailure_frame:
  assumes "handleFailure s = (ok, s')"
  shows "\<exists>P Q. s' = s\<lparr>pixels := P, shown := Q\<rparr> \<and> length P = length (pixels s)"
proof (cases "0 < numberOfEvents s")
  case True
  with assms show ?thesis
    by (intro exI [of _ "pixels s"] exI [of _ "shown s"]) (simp add: handleFailure_def)
next
  case False
  with assms have "s' = snd ((blink ^^ 600) (True, s))"
    by (simp add: handleFailure_def)
  with blink_frame [of 600 True s] show ?thesis
    by simp
qed

lemma power_on_valid:
  "length (events initialState) = maxNumberOfEvents" "numberOfEvents initialState \<le> maxNumberOfEvents"
  "length (todaysEvents initialState) = trashIndex COUNT" "length (pixels initialState) = numOfNeoPixels"
  "firstRun initialState" "storedValid initialState"
  by (simp_all add: initialState_def storedValid_def)


subsection \<open>The states the sketch reaches\<close>

lemma getIcs_bounded:
  assumes "length (events s) = maxNumberOfEvents" and "numberOfEvents s \<le> maxNumberOfEvents"
  shows "\<exists>ok s'. getIcs t s = Inr (ok, s') \<and> numberOfEvents s' \<le> maxNumberOfEvents \<and>
                 length (events s') = maxNumberOfEvents"
proof (cases t)
  case UnableToConnect
  with assms show ?thesis by (auto simp: getIcs_def)
next
  case (Response httpCode lines)
  have "length (events (s\<lparr>numberOfEvents := 0\<rparr>)) = maxNumberOfEvents"
    using assms(1) by simp
  from readLines_total [OF this, of lines initialReader] obtain s' where
    "readLines lines initialReader (s\<lparr>numberOfEvents := 0\<rparr>) = Inr s'"
    "length (events s') = maxNumberOfEvents" "numberOfEvents s' \<le> maxNumberOfEvents"
    by auto
  with Response assms show ?thesis by (auto simp: getIcs_def)
qed

lemma reachable_invariant:
  assumes "reachable s"
  shows "length (events s) = maxNumberOfEvents \<and> numberOfEvents s \<le> maxNumberOfEvents \<and>
         length (todaysEvents s) = trashIndex COUNT \<and> length (pixels s) = numOfNeoPixels \<and>
         (firstRun s \<or> \<not> staticsInit s) \<and> storedValid s"
  using assms
proof (induction rule: reachable.induct)
  case power_on
  show ?case by (simp add: power_on_valid)
next
  case (fetch s t ok s')
  from getIcs_bounded [of s t] fetch.IH fetch.hyps(2)
  have "numberOfEvents s' \<le> maxNumberOfEvents \<and> length (events s') = maxNumberOfEvents"
    by auto
  with getIcs_frame [OF fetch.hyps(2)] getIcs_valid [OF fetch.hyps(2)] fetch.IH show ?case
    by simp
next
  case (tick s ok now newMonth s')
  from tick.IH have fr: "firstRun s \<or> \<not> staticsInit s"
    by simp
  from updateLeds_frame [OF tick.hyps(2)] firstRun_never_cleared(1) [OF tick.hyps(2) fr] tick.IH
  show ?case
    by (simp add: storedValid_def)
next
  case (failure s ok s')
  from handleFailure_frame [OF failure.hyps(2)] failure.IH show ?case
    by (auto simp: storedValid_def)
qed

text \<open>
  In every state the sketch reaches, a call of \<^verbatim>\<open>updateLeds\<close> that reads the clock
  goes past the test on \<^verbatim>\<open>lastDay\<close>.
\<close>

lemma reachable_refreshes: "reachable s \<Longrightarrow> refreshes c s"
  using reachable_invariant [of s] by (auto simp: refreshes_def initStatics_def)


subsection \<open>Capacity of the event list\<close>

text \<open>
  C6: in every state the sketch reaches, the count of stored events is at most 100 and
  \<^verbatim>\<open>events\<close> has its 100 slots; every call of \<^verbatim>\<open>getIcs\<close> returns without a
  write outside \<^verbatim>\<open>events\<close> and with a count of at most 100. With 100 events
  stored, \<^verbatim>\<open>parseIcsLine\<close> returns at its first test and the read loop changes
  nothing any more. A body of 150 pairs of a date line and a category line gives exactly
  100 stored events. (The diagnostic goes to \<^verbatim>\<open>Serial\<close>, which the model leaves
  out.)
\<close>

theorem event_list_capacity:
  assumes "reachable s"
  shows "numberOfEvents s \<le> maxNumberOfEvents \<and> length (events s) = maxNumberOfEvents \<and>
         (\<exists>ok s'. getIcs t s = Inr (ok, s') \<and> numberOfEvents s' \<le> maxNumberOfEvents \<and>
                  length (events s') = maxNumberOfEvents) \<and>
         (maxNumberOfEvents \<le> numberOfEvents s \<longrightarrow>
            parseIcsLine line s = Inr s \<and> readLines body rd s = Inr s) \<and>
         (\<exists>s'. getIcs (Response HTTP_CODE_OK (concat (replicate 150 [dateLine, summaryLine]))) s =
                  Inr (True, s') \<and>
               numberOfEvents s' = maxNumberOfEvents \<and> length (events s') = maxNumberOfEvents)"
proof -
  from reachable_invariant [OF assms]
  have len: "length (events s) = maxNumberOfEvents" and le: "numberOfEvents s \<le> maxNumberOfEvents"
    by simp_all
  have full: "maxNumberOfEvents \<le> numberOfEvents s \<longrightarrow>
                parseIcsLine line s = Inr s \<and> readLines body rd s = Inr s"
    by (simp add: parseIcsLine_full readLines_full)
  have l: "length (events (s\<lparr>numberOfEvents := 0\<rparr>)) = maxNumberOfEvents"
    and z: "numberOfEvents (s\<lparr>numberOfEvents := 0\<rparr>) = 0"
    using len by simp_all
  have "(150::nat) = Suc (maxNumberOfEvents + 49)"
    by (simp add: maxNumberOfEvents_def)
  with pairs_fill_the_list [OF l z, of 49] obtain s' where
    "readLines (concat (replicate 150 [dateLine, summaryLine])) initialReader (s\<lparr>numberOfEvents := 0\<rparr>) = Inr s'"
    "numberOfEvents s' = maxNumberOfEvents" "length (events s') = maxNumberOfEvents"
    by auto
  then have pairs: "\<exists>s'. getIcs (Response HTTP_CODE_OK (concat (replicate 150 [dateLine, summaryLine]))) s =
                  Inr (True, s') \<and>
               numberOfEvents s' = maxNumberOfEvents \<and> length (events s') = maxNumberOfEvents"
    by (simp add: getIcs_def HTTP_CODE_OK_def maxNumberOfEvents_def)
  from len le getIcs_bounded [OF len le, of t] full pairs show ?thesis
    by blast
qed

text \<open>The state after the fetch of 150 pairs from power-on is reached and full.\<close>

theorem event_list_capacity_witness:
  "\<exists>s. getIcs (Response HTTP_CODE_OK (concat (replicate 150 [dateLine, summaryLine]))) initialState =
          Inr (True, s) \<and>
        reachable s \<and> maxNumberOfEvents \<le> numberOfEvents s \<and> numberOfEvents s \<le> maxNumberOfEvents \<and>
        parseIcsLine dateLine s = Inr s \<and>
        readLines [dateLine, summaryLine] initialReader s = Inr s"
proof -
  from event_list_capacity [OF reachable.power_on] obtain s where s:
    "getIcs (Response HTTP_CODE_OK (concat (replicate 150 [dateLine, summaryLine]))) initialState =
       Inr (True, s)"
    "numberOfEvents s = maxNumberOfEvents"
    by blast
  from reachable.fetch [OF reachable.power_on s(1)] have r: "reachable s" .
  from s(2) have full: "maxNumberOfEvents \<le> numberOfEvents s"
    by simp
  from event_list_capacity [OF r, of UnableToConnect dateLine "[dateLine, summaryLine]" initialReader]
    s(1) r full
  show ?thesis
    by (intro exI [of _ s]) simp
qed

end
